theory Spec2Isabelle
  imports Complex_Main "HOL-Library.Product_Lexorder"
begin

section \<open>Dates as the calendar component uses them\<close>

text \<open>
  The calendar component works on JavaScript \<^verbatim>\<open>Date\<close> objects through the date-fns
  functions \<^verbatim>\<open>parseISO\<close>, \<^verbatim>\<open>addDays\<close>, \<^verbatim>\<open>addWeeks\<close>, \<^verbatim>\<open>addMonths\<close> and \<^verbatim>\<open>format\<close>.
  A valid date is modelled by its local calendar fields: the month index
  (twelve times the year plus the zero-based month, so that year and month can never be
  out of step), the day of the month and the millisecond of the day. The local time zone
  is taken to be UTC (a fixed offset, no daylight saving), so the order of two time stamps
  is the lexicographic order of these fields. \<^verbatim>\<open>Invalid Date\<close> (time value NaN) is
  \<open>None\<close>. Amounts are whole numbers. The date-fns functions never change their
  argument: each returns a new date, so the start date is not touched by the loop.
\<close>

type_synonym civil = "int \<times> nat \<times> int"
type_synonym jsdate = "civil option"

definition getFullYear :: "int \<Rightarrow> int" where
  "getFullYear mi = mi div 12"

definition getMonth :: "int \<Rightarrow> nat" where
  "getMonth mi = nat (mi mod 12)"

definition isLeapYear :: "int \<Rightarrow> bool" where
  "isLeapYear y \<longleftrightarrow> (y mod 4 = 0 \<and> y mod 100 \<noteq> 0) \<or> y mod 400 = 0"

definition daysInMonth :: "int \<Rightarrow> nat" where
  "daysInMonth mi =
     (let m = getMonth mi in
      if m = 1 then (if isLeapYear (getFullYear mi) then 29 else 28)
      else if m = 3 \<or> m = 5 \<or> m = 8 \<or> m = 10 then 30
      else 31)"

fun nextDay :: "civil \<Rightarrow> civil" where
  "nextDay (mi, d, ms) = (if d < daysInMonth mi then (mi, d + 1, ms) else (mi + 1, 1, ms))"

fun prevDay :: "civil \<Rightarrow> civil" where
  "prevDay (mi, d, ms) =
     (if 1 < d then (mi, d - 1, ms) else (mi - 1, daysInMonth (mi - 1), ms))"

fun forward :: "nat \<Rightarrow> civil \<Rightarrow> civil" where
  "forward 0 c = c"
| "forward (Suc n) c = forward n (nextDay c)"

fun backward :: "nat \<Rightarrow> civil \<Rightarrow> civil" where
  "backward 0 c = c"
| "backward (Suc n) c = backward n (prevDay c)"

text \<open>
  A time value lies within 8.64e15 milliseconds of the epoch, that is between
  20 April -271821 and 13 September 275760; a setter that leaves this range makes the
  date invalid.
\<close>

definition minDate :: civil where
  "minDate = (-271821 * 12 + 3, 20, 0)"

definition maxDate :: civil where
  "maxDate = (275760 * 12 + 8, 13, 0)"

definition timeClip :: "civil \<Rightarrow> jsdate" where
  "timeClip c = (if minDate \<le> c \<and> c \<le> maxDate then Some c else None)"

text \<open>
  \<^verbatim>\<open>addDays(date, amount)\<close>: an amount of zero returns the date, otherwise
  \<^verbatim>\<open>date.setDate(date.getDate() + amount)\<close>.
\<close>

definition addDays :: "jsdate \<Rightarrow> int \<Rightarrow> jsdate" where
  "addDays date amount =
     (case date of
        None \<Rightarrow> None
      | Some c \<Rightarrow>
          if amount = 0 then Some c
          else if 0 < amount then timeClip (forward (nat amount) c)
          else timeClip (backward (nat (- amount)) c))"

definition addWeeks :: "jsdate \<Rightarrow> int \<Rightarrow> jsdate" where
  "addWeeks date amount = addDays date (amount * 7)"

text \<open>
  \<^verbatim>\<open>addMonths(date, amount)\<close>: the last day of the desired month is computed first
  (\<^verbatim>\<open>setMonth(month + amount + 1, 0)\<close>); a day of the month that the desired month does
  not have is clamped to that last day, otherwise year and month are replaced and the day
  is kept.
\<close>

definition addMonths :: "jsdate \<Rightarrow> int \<Rightarrow> jsdate" where
  "addMonths date amount =
     (case date of
        None \<Rightarrow> None
      | Some (mi, d, ms) \<Rightarrow>
          if amount = 0 then Some (mi, d, ms)
          else
            (case timeClip (mi + amount, daysInMonth (mi + amount), ms) of
               None \<Rightarrow> None
             | Some endOfDesiredMonth \<Rightarrow>
                 if daysInMonth (mi + amount) \<le> d then Some endOfDesiredMonth
                 else timeClip (mi + amount, d, ms)))"

text \<open>
  Relational operators on dates compare time values; a comparison with NaN is false.
\<close>

definition date_le :: "jsdate \<Rightarrow> jsdate \<Rightarrow> bool" where
  "date_le a b = (case a of None \<Rightarrow> False | Some x \<Rightarrow> (case b of None \<Rightarrow> False | Some y \<Rightarrow> x \<le> y))"

definition date_gt :: "jsdate \<Rightarrow> jsdate \<Rightarrow> bool" where
  "date_gt a b = (case a of None \<Rightarrow> False | Some x \<Rightarrow> (case b of None \<Rightarrow> False | Some y \<Rightarrow> y < x))"

subsection \<open>Formatting\<close>

datatype js_error = RangeError

fun digits :: "nat \<Rightarrow> string" where
  "digits n = (if n < 10 then [''0123456789'' ! n] else digits (n div 10) @ [''0123456789'' ! (n mod 10)])"

declare digits.simps [simp del]

definition addLeadingZeros :: "nat \<Rightarrow> nat \<Rightarrow> string" where
  "addLeadingZeros n targetLength =
     replicate (targetLength - length (digits n)) (CHR ''0'') @ digits n"

text \<open>
  \<^verbatim>\<open>format(date, "yyyy-MM-dd'T'HH:mm:ss")\<close> throws a RangeError on an invalid date.
  The token \<^verbatim>\<open>yyyy\<close> prints the year of the era: a year that is not positive is printed
  as one minus the year.
\<close>

definition format_civil :: "civil \<Rightarrow> string" where
  "format_civil c =
     (case c of (mi, d, ms) \<Rightarrow>
        (let signedYear = getFullYear mi;
             year = (if 0 < signedYear then signedYear else 1 - signedYear)
         in addLeadingZeros (nat year) 4 @ ''-'' @ addLeadingZeros (getMonth mi + 1) 2 @ ''-''
            @ addLeadingZeros d 2 @ ''T'' @ addLeadingZeros (nat (ms div 3600000)) 2 @ '':''
            @ addLeadingZeros (nat (ms div 60000 mod 60)) 2 @ '':''
            @ addLeadingZeros (nat (ms div 1000 mod 60)) 2))"

definition format_date :: "jsdate \<Rightarrow> js_error + string" where
  "format_date date = (case date of None \<Rightarrow> Inl RangeError | Some c \<Rightarrow> Inr (format_civil c))"

subsection \<open>Parsing\<close>

text \<open>
  The projection takes the parser as a parameter, so that what is proved of it holds for
  every parser. \<^verbatim>\<open>parseISO\<close> itself is modelled on the two shapes the application stores
  and \<^verbatim>\<open>format\<close> above writes: \<^verbatim>\<open>yyyy-MM-dd\<close> and \<^verbatim>\<open>yyyy-MM-ddTHH:mm:ss\<close>, four, two
  and two digits. On these a month, day or time out of range gives an invalid date, and
  the time \<^verbatim>\<open>24:00:00\<close> is midnight of the next day. On every other string (a zone
  suffix, an offset, fractions of a second, week and ordinal dates, years with a sign)
  the result is that of the parameter \<open>other\<close>, which stands for the library there.
\<close>

definition is_digit :: "char \<Rightarrow> bool" where
  "is_digit c \<longleftrightarrow> c \<in> set ''0123456789''"

definition digit_value :: "char \<Rightarrow> nat" where
  "digit_value c = of_char c - 48"

definition number_of :: "string \<Rightarrow> nat" where
  "number_of cs = foldl (\<lambda>n c. 10 * n + digit_value c) 0 cs"

definition plain_date :: "string \<Rightarrow> bool" where
  "plain_date s \<longleftrightarrow>
     length s = 10 \<and> s ! 4 = CHR ''-'' \<and> s ! 7 = CHR ''-''
     \<and> list_all is_digit (take 4 s) \<and> list_all is_digit (take 2 (drop 5 s))
     \<and> list_all is_digit (drop 8 s)"

definition plain_time :: "string \<Rightarrow> bool" where
  "plain_time s \<longleftrightarrow>
     length s = 8 \<and> s ! 2 = CHR '':'' \<and> s ! 5 = CHR '':''
     \<and> list_all is_digit (take 2 s) \<and> list_all is_digit (take 2 (drop 3 s))
     \<and> list_all is_digit (drop 6 s)"

definition parse_day :: "string \<Rightarrow> (int \<times> nat) option" where
  "parse_day s =
     (let y = number_of (take 4 s); m = number_of (take 2 (drop 5 s)); d = number_of (drop 8 s)
      in if 1 \<le> m \<and> m \<le> 12 \<and> 1 \<le> d \<and> d \<le> daysInMonth (int y * 12 + int m - 1)
         then Some (int y * 12 + int m - 1, d) else None)"

definition parse_time :: "string \<Rightarrow> int option" where
  "parse_time s =
     (let h = number_of (take 2 s); m = number_of (take 2 (drop 3 s)); sec = number_of (drop 6 s)
      in if (h = 24 \<and> m = 0 \<and> sec = 0) \<or> (h < 24 \<and> m < 60 \<and> sec < 60)
         then Some (int h * 3600000 + int m * 60000 + int sec * 1000) else None)"

definition parseISO :: "(string \<Rightarrow> jsdate) \<Rightarrow> string \<Rightarrow> jsdate" where
  "parseISO other s =
     (if plain_date s then map_option (\<lambda>(mi, d). (mi, d, 0)) (parse_day s)
      else if length s = 19 \<and> s ! 10 = CHR ''T'' \<and> plain_date (take 10 s)
              \<and> plain_time (drop 11 s) then
        (case parse_day (take 10 s) of
           None \<Rightarrow> None
         | Some (mi, d) \<Rightarrow>
             (case parse_time (drop 11 s) of
                None \<Rightarrow> None
              | Some ms \<Rightarrow>
                  if ms = 86400000 then Some (nextDay (mi, d, 0)) else Some (mi, d, ms)))
      else other s)"

text \<open>
  For the examples below, whose strings are of the two shapes, a parameter that reads
  nothing.
\<close>

definition no_other_shape :: "string \<Rightarrow> jsdate" where
  "no_other_shape s = None"

subsection \<open>Dates that are read back\<close>

text \<open>
  A date as JavaScript holds it has a day that its month has and a millisecond within the
  day. \<^verbatim>\<open>format\<close> writes the year of the era, with four digits at least, and no
  milliseconds; so what it writes is read back by \<^verbatim>\<open>parseISO\<close> as the same second of the
  same day only for the years 1 to 9999. The calendar reads every projected occurrence
  back in this way (\<^verbatim>\<open>parseISO(occurrence.delivery_date)\<close>).
\<close>

definition wellformed :: "civil \<Rightarrow> bool" where
  "wellformed c =
     (case c of (mi, d, ms) \<Rightarrow> 1 \<le> d \<and> d \<le> daysInMonth mi \<and> 0 \<le> ms \<and> ms < 86400000)"

definition millisecond :: "civil \<Rightarrow> int" where
  "millisecond c = snd (snd c)"

text \<open>An anchor that is invalid or a date of the year 1 or later.\<close>

definition common_era :: "jsdate \<Rightarrow> bool" where
  "common_era date =
     (case date of None \<Rightarrow> True | Some (mi, d, ms) \<Rightarrow> wellformed (mi, d, ms) \<and> 1 \<le> getFullYear mi)"

text \<open>A horizon that is invalid or not after the year 9999.\<close>

definition four_digit_year :: "jsdate \<Rightarrow> bool" where
  "four_digit_year date =
     (case date of None \<Rightarrow> True | Some (mi, d, ms) \<Rightarrow> getFullYear mi \<le> 9999)"

section \<open>Orders\<close>

text \<open>
  An order as the dashboards receive it from the backend. A field that may be absent is
  an option; for \<open>frequency_value\<close>, \<open>None\<close> is \<^verbatim>\<open>undefined\<close>, the case in which the
  default of the destructuring applies. An empty delivery date is as falsy as an absent
  one. Amounts of money are rationals; the projection only carries them along.
\<close>

record recurrence_pattern =
  frequency_type :: "string option"
  frequency_value :: "int option"

record item =
  sku :: string
  quantity :: "rat option"
  unit_price :: "rat option"

datatype modification_state = Pending | Approved | Rejected

record modification_proposal =
  proposed_items :: "item list option"
  proposed_total :: "rat option"

record order =
  order_id :: string
  is_recurring :: bool
  recurrence_pattern :: "recurrence_pattern option"
  delivery_date :: "string option"
  status :: string
  items :: "item list"
  total_amount :: rat
  modification_status :: "modification_state option"
  pending_modifications :: "modification_proposal option"

text \<open>
  A projected occurrence is
  \<^verbatim>\<open>{...order, delivery_date: ..., isRecurringInstance: true, originalOrderId: order.id}\<close>.
\<close>

record occurrence = order +
  isRecurringInstance :: bool
  originalOrderId :: string

definition make_occurrence :: "order \<Rightarrow> string \<Rightarrow> occurrence" where
  "make_occurrence ord formatted =
     order.extend (ord\<lparr>delivery_date := Some formatted\<rparr>)
       (occurrence.fields True (order_id ord))"

section \<open>Projection of a recurring order\<close>

record loop_state =
  occurrences :: "occurrence list"
  currentDate :: jsdate
  iteration :: nat

definition maxIterations :: nat where
  "maxIterations = 200"

text \<open>The body of the \<^verbatim>\<open>if (currentDate > startDate)\<close> statement.\<close>

definition push_occurrence :: "order \<Rightarrow> jsdate \<Rightarrow> occurrence list \<Rightarrow> js_error + occurrence list" where
  "push_occurrence ord date occs =
     (case format_date date of
        Inl e \<Rightarrow> Inl e
      | Inr formatted \<Rightarrow> Inr (occs @ [make_occurrence ord formatted]))"

text \<open>
  The chain on \<^verbatim>\<open>frequency_type\<close>: the next date, or \<open>None\<close> for the \<^verbatim>\<open>break\<close> of
  an unknown frequency type.
\<close>

definition next_occurrence :: "string option \<Rightarrow> int \<Rightarrow> jsdate \<Rightarrow> jsdate option" where
  "next_occurrence ftype fvalue date =
     (if ftype = Some ''daily'' then Some (addDays date fvalue)
      else if ftype = Some ''weekly'' then Some (addWeeks date fvalue)
      else if ftype = Some ''monthly'' then Some (addMonths date fvalue)
      else None)"

text \<open>
  The \<^verbatim>\<open>while\<close> loop, from a loop state to the state in which the loop is left. The
  counter \<open>iteration\<close> is the number of completed passes.
\<close>

function occurrence_loop ::
  "order \<Rightarrow> string option \<Rightarrow> int \<Rightarrow> jsdate \<Rightarrow> jsdate \<Rightarrow> loop_state \<Rightarrow> js_error + loop_state" where
  "occurrence_loop ord ftype fvalue startDate sixMonthsFromNow s =
     (if date_le (currentDate s) sixMonthsFromNow \<and> iteration s < maxIterations then
        (case (if date_gt (currentDate s) startDate
               then push_occurrence ord (currentDate s) (occurrences s)
               else Inr (occurrences s)) of
           Inl e \<Rightarrow> Inl e
         | Inr occs \<Rightarrow>
             (case next_occurrence ftype fvalue (currentDate s) of
                None \<Rightarrow> Inr (s\<lparr>occurrences := occs\<rparr>)
              | Some date \<Rightarrow>
                  occurrence_loop ord ftype fvalue startDate sixMonthsFromNow
                    \<lparr>occurrences = occs, currentDate = date, iteration = iteration s + 1\<rparr>))
      else Inr s)"
  by pat_completeness auto
termination
  by (relation "measure (\<lambda>(ord, ftype, fvalue, startDate, sixMonthsFromNow, s).
        maxIterations - iteration s)") auto

declare occurrence_loop.simps [simp del]

text \<open>
  The state in which the loop of \<^verbatim>\<open>generateRecurringOccurrences(order)\<close> is left, for an
  order that passed the guard. \<open>parse\<close> is \<^verbatim>\<open>parseISO\<close> and \<open>now\<close> is the clock reading
  \<^verbatim>\<open>new Date()\<close>.
\<close>

definition projection_run ::
  "(string \<Rightarrow> jsdate) \<Rightarrow> jsdate \<Rightarrow> order \<Rightarrow> recurrence_pattern \<Rightarrow> string \<Rightarrow> js_error + loop_state" where
  "projection_run parse now ord pattern delivery =
     (let fvalue = (case frequency_value pattern of None \<Rightarrow> 1 | Some v \<Rightarrow> v);
          startDate = parse delivery;
          sixMonthsFromNow = addMonths now 6
      in occurrence_loop ord (frequency_type pattern) fvalue startDate sixMonthsFromNow
           \<lparr>occurrences = [], currentDate = startDate, iteration = 0\<rparr>)"

definition generateRecurringOccurrences ::
  "(string \<Rightarrow> jsdate) \<Rightarrow> jsdate \<Rightarrow> order \<Rightarrow> js_error + occurrence list" where
  "generateRecurringOccurrences parse now ord =
     (if \<not> is_recurring ord \<or> recurrence_pattern ord = None \<or> delivery_date ord = None
         \<or> delivery_date ord = Some [] \<or> status ord = ''cancelled''
      then Inr []
      else
        (case (recurrence_pattern ord, delivery_date ord) of
           (Some pattern, Some delivery) \<Rightarrow>
             (case projection_run parse now ord pattern delivery of
                Inl e \<Rightarrow> Inl e
              | Inr s \<Rightarrow> Inr (occurrences s))
         | _ \<Rightarrow> Inr []))"

section \<open>Price computation and the modification workflow\<close>

text \<open>
  The price computation and the endpoints that propose, approve and reject a modification
  belong to the backend (\<^verbatim>\<open>backend/server.py\<close>); the dashboards only call them. The
  definitions of this section follow the specification of that workflow, in exact
  arithmetic.
\<close>

text \<open>Modelled from the spec: the errors of the price computation and the workflow.\<close>

datatype workflow_error = InvalidItemError | InvalidProposalError | NoPendingModificationError

text \<open>Modelled from the spec: the result of the price computation.\<close>

record price =
  subtotal :: rat
  tax :: rat
  total :: rat

text \<open>Modelled from the spec: the configured tax rate of the price computation, 10 percent.\<close>

definition TAX_RATE :: rat where
  "TAX_RATE = 1 / 10"

text \<open>
  Modelled from the spec: the rounding of the price computation, half-up to two decimal
  places.
\<close>

definition round_half_up :: "rat \<Rightarrow> rat" where
  "round_half_up x = of_int \<lfloor>x * 100 + 1 / 2\<rfloor> / 100"

text \<open>
  Modelled from the spec: the validity check of the price computation on a line item;
  quantity and unit price are present and not negative.
\<close>

definition valid_item :: "item \<Rightarrow> bool" where
  "valid_item it =
     (case quantity it of
        None \<Rightarrow> False
      | Some q \<Rightarrow> (case unit_price it of None \<Rightarrow> False | Some p \<Rightarrow> 0 \<le> q \<and> 0 \<le> p))"

text \<open>Modelled from the spec: the amount of one line item, quantity times unit price.\<close>

definition line_total :: "item \<Rightarrow> rat" where
  "line_total it =
     (case quantity it of
        None \<Rightarrow> 0
      | Some q \<Rightarrow> (case unit_price it of None \<Rightarrow> 0 | Some p \<Rightarrow> q * p))"

text \<open>
  Modelled from the spec: \<^verbatim>\<open>PriceCalculator.computeTotal(items)\<close>, the backend's price
  computation; it fails with an \<^verbatim>\<open>InvalidItemError\<close> on a negative or missing value.
\<close>

definition computeTotal :: "item list \<Rightarrow> workflow_error + price" where
  "computeTotal its =
     (if list_all valid_item its then
        (let st = sum_list (map line_total its);
             tx = round_half_up (st * TAX_RATE)
         in Inr \<lparr>subtotal = st, tax = tx, total = st + tx\<rparr>)
      else Inl InvalidItemError)"

text \<open>Modelled from the spec: the changes a proposer submits.\<close>

record changes =
  changed_items :: "item list option"

text \<open>
  Modelled from the spec: \<^verbatim>\<open>propose(order, changes)\<close>, the backend's propose-modification
  endpoint.
\<close>

definition propose :: "order \<Rightarrow> changes \<Rightarrow> workflow_error + order" where
  "propose ord ch =
     (if modification_status ord = Some Pending then Inl InvalidProposalError
      else if changed_items ch = Some [] then Inl InvalidProposalError
      else
        (case computeTotal (case changed_items ch of None \<Rightarrow> items ord | Some its \<Rightarrow> its) of
           Inl e \<Rightarrow> Inl e
         | Inr pr \<Rightarrow>
             Inr (ord\<lparr>modification_status := Some Pending,
                      pending_modifications :=
                        Some \<lparr>proposed_items = changed_items ch,
                              proposed_total = Some (subtotal pr)\<rparr>\<rparr>)))"

text \<open>
  Modelled from the spec: \<^verbatim>\<open>approve(order)\<close>, the backend's approve-modification
  endpoint.
\<close>

definition approve :: "order \<Rightarrow> workflow_error + order" where
  "approve ord =
     (if modification_status ord \<noteq> Some Pending then Inl NoPendingModificationError
      else
        (case pending_modifications ord of
           None \<Rightarrow> Inl NoPendingModificationError
         | Some pm \<Rightarrow>
             (case proposed_items pm of
                Some its \<Rightarrow>
                  (case computeTotal its of
                     Inl e \<Rightarrow> Inl e
                   | Inr pr \<Rightarrow>
                       Inr (ord\<lparr>items := its, total_amount := subtotal pr,
                                modification_status := Some Approved,
                                pending_modifications := None\<rparr>))
              | None \<Rightarrow>
                  Inr (ord\<lparr>total_amount :=
                             (case proposed_total pm of
                                None \<Rightarrow> total_amount ord
                              | Some t \<Rightarrow> t),
                           modification_status := Some Approved,
                           pending_modifications := None\<rparr>))))"

text \<open>
  Modelled from the spec: \<^verbatim>\<open>reject(order)\<close>, the backend's reject-modification endpoint.
\<close>

definition reject :: "order \<Rightarrow> workflow_error + order" where
  "reject ord =
     (if modification_status ord \<noteq> Some Pending then Inl NoPendingModificationError
      else Inr (ord\<lparr>modification_status := Some Rejected, pending_modifications := None\<rparr>))"

section \<open>Sample data\<close>

text \<open>
  A weekly order anchored on 1 January 2025, and the clock reading 31 July 2024, whose
  six-month horizon is 31 January 2025.
\<close>

definition weekly_pattern :: recurrence_pattern where
  "weekly_pattern = \<lparr>frequency_type = Some ''weekly'', frequency_value = Some 1\<rparr>"

definition weekly_order :: order where
  "weekly_order =
     \<lparr>order_id = ''order-1'', is_recurring = True, recurrence_pattern = Some weekly_pattern,
      delivery_date = Some ''2025-01-01'', status = ''scheduled'', items = [],
      total_amount = 0, modification_status = None, pending_modifications = None\<rparr>"

definition end_of_july_2024 :: jsdate where
  "end_of_july_2024 = Some (24294, 31, 0)"

text \<open>
  An order of two shirts at 30, and the same order with a pending proposal of one shirt at
  60 and one pair of pants at 35 whose stored total is still 60.
\<close>

definition shirts :: "item list" where
  "shirts = [\<lparr>sku = ''shirt'', quantity = Some 2, unit_price = Some 30\<rparr>]"

definition shirt_and_pants :: "item list" where
  "shirt_and_pants =
     [\<lparr>sku = ''shirt'', quantity = Some 1, unit_price = Some 60\<rparr>,
      \<lparr>sku = ''pants'', quantity = Some 1, unit_price = Some 35\<rparr>]"

definition shirt_order :: order where
  "shirt_order =
     \<lparr>order_id = ''order-2'', is_recurring = False, recurrence_pattern = None,
      delivery_date = Some ''2025-01-01'', status = ''scheduled'', items = shirts,
      total_amount = 60, modification_status = None, pending_modifications = None\<rparr>"

definition stale_proposal :: order where
  "stale_proposal =
     shirt_order\<lparr>modification_status := Some Pending,
       pending_modifications :=
         Some \<lparr>proposed_items = Some shirt_and_pants, proposed_total = Some 60\<rparr>\<rparr>"

text \<open>
  The weekly order with an interval of zero, with a daily interval of minus one, with a
  frequency type the projection does not know, and cancelled; and two clock readings,
  30 and 31 August 2024, that have the same six-month horizon, 28 February 2025.
\<close>

definition zero_pattern :: recurrence_pattern where
  "zero_pattern = \<lparr>frequency_type = Some ''weekly'', frequency_value = Some 0\<rparr>"

definition zero_interval_order :: order where
  "zero_interval_order = weekly_order\<lparr>recurrence_pattern := Some zero_pattern\<rparr>"

definition backwards_pattern :: recurrence_pattern where
  "backwards_pattern = \<lparr>frequency_type = Some ''daily'', frequency_value = Some (- 1)\<rparr>"

definition backwards_order :: order where
  "backwards_order = weekly_order\<lparr>recurrence_pattern := Some backwards_pattern\<rparr>"

definition yearly_pattern :: recurrence_pattern where
  "yearly_pattern = \<lparr>frequency_type = Some ''yearly'', frequency_value = Some 1\<rparr>"

definition yearly_order :: order where
  "yearly_order = weekly_order\<lparr>recurrence_pattern := Some yearly_pattern\<rparr>"

definition cancelled_order :: order where
  "cancelled_order = weekly_order\<lparr>status := ''cancelled''\<rparr>"

definition august_30_2024 :: jsdate where
  "august_30_2024 = Some (24295, 30, 0)"

definition august_31_2024 :: jsdate where
  "august_31_2024 = Some (24295, 31, 0)"

text \<open>
  A monthly order anchored on 1 January of the year -3000, written with an expanded year,
  and \<^verbatim>\<open>parseISO\<close> on that one string: a sign and six digits are the year.
\<close>

definition monthly_pattern :: recurrence_pattern where
  "monthly_pattern = \<lparr>frequency_type = Some ''monthly'', frequency_value = Some 1\<rparr>"

definition ancient_order :: order where
  "ancient_order =
     weekly_order\<lparr>recurrence_pattern := Some monthly_pattern,
                  delivery_date := Some ''-003000-01-01''\<rparr>"

definition expanded_year :: "string \<Rightarrow> jsdate" where
  "expanded_year s = (if s = ''-003000-01-01'' then Some (- 36000, 1, 0) else None)"

text \<open>
  Two clock readings one millisecond apart: the last millisecond of 28 July 2024 and
  midnight of 29 July 2024.
\<close>

definition july_28_last_millisecond :: jsdate where
  "july_28_last_millisecond = Some (24294, 28, 86399999)"

definition july_29_2024 :: jsdate where
  "july_29_2024 = Some (24294, 29, 0)"

section \<open>Date arithmetic with an amount that is not positive\<close>

lemma prevDay_less: "prevDay c < c"
  by (cases c) auto

lemma backward_le: "backward n c \<le> c"
proof (induction n arbitrary: c)
  case 0
  show ?case by simp
next
  case (Suc n)
  have "backward n (prevDay c) \<le> prevDay c" by (rule Suc.IH)
  also have "prevDay c < c" by (rule prevDay_less)
  finally show ?case by simp
qed

lemma timeClip_Some: "timeClip c = Some c' \<Longrightarrow> c' = c"
  by (simp add: timeClip_def split: if_splits)

lemma addDays_nonpos:
  assumes "amount \<le> 0" and "addDays (Some c) amount = Some c'"
  shows "c' \<le> c"
proof (cases "amount = 0")
  case True
  with assms show ?thesis by (simp add: addDays_def)
next
  case False
  with assms have "timeClip (backward (nat (- amount)) c) = Some c'"
    by (simp add: addDays_def)
  then have "c' = backward (nat (- amount)) c" by (rule timeClip_Some)
  then show ?thesis by (simp add: backward_le)
qed

lemma addMonths_nonpos:
  assumes "amount \<le> 0" and "addMonths (Some c) amount = Some c'"
  shows "c' \<le> c"
proof (cases "amount = 0")
  case True
  with assms show ?thesis by (cases c) (simp add: addMonths_def)
next
  case False
  obtain mi d ms where c: "c = (mi, d, ms)" by (cases c)
  from assms False c have "fst c' = mi + amount"
    by (auto simp: addMonths_def timeClip_def split: option.splits if_splits)
  with assms False c show ?thesis by (cases c') auto
qed

lemma addWeeks_nonpos:
  assumes "amount \<le> 0" and "addWeeks (Some c) amount = Some c'"
  shows "c' \<le> c"
  using assms addDays_nonpos [of "amount * 7" c c'] by (simp add: addWeeks_def)

lemma next_occurrence_nonpos:
  assumes "fvalue \<le> 0" and "next_occurrence ftype fvalue date = Some date'"
    and "\<not> date_gt date startDate"
  shows "\<not> date_gt date' startDate"
proof (cases date')
  case None
  then show ?thesis by (simp add: date_gt_def)
next
  case (Some c')
  from assms(2) Some obtain c where c: "date = Some c"
    by (cases date) (auto simp: next_occurrence_def addDays_def addWeeks_def addMonths_def split: if_splits)
  from assms(1,2) Some c have "c' \<le> c"
    by (auto simp: next_occurrence_def split: if_splits
          dest: addDays_nonpos addWeeks_nonpos addMonths_nonpos)
  with assms(3) c Some show ?thesis
    by (auto simp: date_gt_def split: option.splits)
qed



section \<open>The loop, one pass at a time\<close>

lemma loop_exit:
  assumes "\<not> (date_le (currentDate s) hor \<and> iteration s < maxIterations)"
  shows "occurrence_loop ord ftype fvalue st hor s = Inr s"
  by (subst occurrence_loop.simps) (simp only: assms if_False)

lemma loop_break:
  assumes "date_le (currentDate s) hor \<and> iteration s < maxIterations"
    and "(if date_gt (currentDate s) st
          then push_occurrence ord (currentDate s) (occurrences s)
          else Inr (occurrences s)) = Inr occs"
    and "next_occurrence ftype fvalue (currentDate s) = None"
  shows "occurrence_loop ord ftype fvalue st hor s = Inr (s\<lparr>occurrences := occs\<rparr>)"
  by (subst occurrence_loop.simps) (simp only: assms simp_thms if_True sum.case option.case)

lemma loop_step:
  assumes "date_le (currentDate s) hor \<and> iteration s < maxIterations"
    and "(if date_gt (currentDate s) st
          then push_occurrence ord (currentDate s) (occurrences s)
          else Inr (occurrences s)) = Inr occs"
    and "next_occurrence ftype fvalue (currentDate s) = Some date"
  shows "occurrence_loop ord ftype fvalue st hor s =
         occurrence_loop ord ftype fvalue st hor
           \<lparr>occurrences = occs, currentDate = date, iteration = iteration s + 1\<rparr>"
  by (subst occurrence_loop.simps) (simp only: assms simp_thms if_True sum.case option.case)

lemma push_defined:
  assumes "date_le (currentDate s) hor"
  shows "\<exists>new. (if date_gt (currentDate s) st
             then push_occurrence ord (currentDate s) (occurrences s)
             else Inr (occurrences s))
           = Inr (occurrences s @ map (\<lambda>c. make_occurrence ord (format_civil c)) new)
         \<and> length new \<le> 1
         \<and> (\<forall>c\<in>set new. date_gt (Some c) st \<and> date_le (Some c) hor)"
proof -
  from assms obtain c where c: "currentDate s = Some c"
    by (auto simp: date_le_def split: option.splits)
  show ?thesis
  proof (cases "date_gt (currentDate s) st")
    case True
    with assms c show ?thesis
      by (intro exI [of _ "[c]"]) (simp add: push_occurrence_def format_date_def)
  next
    case False
    then show ?thesis by (intro exI [of _ "[]"]) simp
  qed
qed

lemma loop_bounded:
  "\<exists>s' ds. occurrence_loop ord ftype fvalue st hor s = Inr s'
     \<and> occurrences s' = occurrences s @ map (\<lambda>c. make_occurrence ord (format_civil c)) ds
     \<and> (\<forall>c\<in>set ds. date_gt (Some c) st \<and> date_le (Some c) hor)
     \<and> length ds \<le> maxIterations - iteration s
     \<and> iteration s \<le> iteration s'
     \<and> iteration s' \<le> max (iteration s) maxIterations"
proof (induction ord ftype fvalue st hor s rule: occurrence_loop.induct)
  case (1 ord ftype fvalue st hor s)
  let ?occ = "\<lambda>c. make_occurrence ord (format_civil c)"
  show ?case
  proof (cases "date_le (currentDate s) hor \<and> iteration s < maxIterations")
    case False
    then have "occurrence_loop ord ftype fvalue st hor s = Inr s" by (rule loop_exit)
    then show ?thesis by (intro exI [of _ s] exI [of _ "[]"]) simp
  next
    case True
    then obtain new where
      push: "(if date_gt (currentDate s) st
              then push_occurrence ord (currentDate s) (occurrences s)
              else Inr (occurrences s)) = Inr (occurrences s @ map ?occ new)"
      and len: "length new \<le> 1"
      and new: "\<forall>c\<in>set new. date_gt (Some c) st \<and> date_le (Some c) hor"
      using push_defined [of s hor st ord] by blast
    show ?thesis
    proof (cases "next_occurrence ftype fvalue (currentDate s)")
      case None
      have "occurrence_loop ord ftype fvalue st hor s
            = Inr (s\<lparr>occurrences := occurrences s @ map ?occ new\<rparr>)"
        using True push None by (rule loop_break)
      moreover have "length new \<le> maxIterations - iteration s" using len True by arith
      ultimately show ?thesis using new
        by (intro exI [of _ "s\<lparr>occurrences := occurrences s @ map ?occ new\<rparr>"] exI [of _ new])
           simp
    next
      case (Some date)
      let ?t = "\<lparr>occurrences = occurrences s @ map ?occ new, currentDate = date,
                 iteration = iteration s + 1\<rparr>"
      have eq: "occurrence_loop ord ftype fvalue st hor s
                = occurrence_loop ord ftype fvalue st hor ?t"
        using True push Some by (rule loop_step)
      from "1.IH" [OF True push Some] obtain s' ds where
        r: "occurrence_loop ord ftype fvalue st hor ?t = Inr s'"
        and o: "occurrences s' = occurrences ?t @ map ?occ ds"
        and d: "\<forall>c\<in>set ds. date_gt (Some c) st \<and> date_le (Some c) hor"
        and l: "length ds \<le> maxIterations - iteration ?t"
        and m: "iteration ?t \<le> iteration s'"
        and i: "iteration s' \<le> max (iteration ?t) maxIterations"
        by blast
      have "occurrences s' = occurrences s @ map ?occ (new @ ds)" using o by simp
      moreover have "\<forall>c\<in>set (new @ ds). date_gt (Some c) st \<and> date_le (Some c) hor"
        using new d by auto
      moreover have "length (new @ ds) \<le> maxIterations - iteration s"
        using len l True by auto
      moreover have "iteration s \<le> iteration s'" using m by simp
      moreover have "iteration s' \<le> max (iteration s) maxIterations"
        using i True by auto
      ultimately show ?thesis using eq r by (intro exI [of _ s'] exI [of _ "new @ ds"]) simp
    qed
  qed
qed

lemma loop_no_advance:
  "fvalue \<le> 0 \<Longrightarrow> \<not> date_gt (currentDate s) st \<Longrightarrow>
     \<exists>s'. occurrence_loop ord ftype fvalue st hor s = Inr s'
        \<and> occurrences s' = occurrences s"
proof (induction ord ftype fvalue st hor s rule: occurrence_loop.induct)
  case (1 ord ftype fvalue st hor s)
  show ?case
  proof (cases "date_le (currentDate s) hor \<and> iteration s < maxIterations")
    case False
    then show ?thesis by (simp add: loop_exit)
  next
    case True
    have push: "(if date_gt (currentDate s) st
              then push_occurrence ord (currentDate s) (occurrences s)
              else Inr (occurrences s)) = Inr (occurrences s)"
      using "1.prems" by simp
    show ?thesis
    proof (cases "next_occurrence ftype fvalue (currentDate s)")
      case None
      have "occurrence_loop ord ftype fvalue st hor s = Inr (s\<lparr>occurrences := occurrences s\<rparr>)"
        using True push None by (rule loop_break)
      then show ?thesis by simp
    next
      case (Some date)
      have "\<not> date_gt date st"
        using "1.prems"(1) Some "1.prems"(2) by (rule next_occurrence_nonpos)
      then have "\<not> date_gt (currentDate \<lparr>occurrences = occurrences s, currentDate = date,
           iteration = iteration s + 1\<rparr>) st" by simp
      from "1.IH" [OF True push Some "1.prems"(1) this]
      obtain s' where "occurrence_loop ord ftype fvalue st hor
           \<lparr>occurrences = occurrences s, currentDate = date, iteration = iteration s + 1\<rparr> = Inr s'"
        and "occurrences s' = occurrences s" by auto
      moreover have "occurrence_loop ord ftype fvalue st hor s
                = occurrence_loop ord ftype fvalue st hor
           \<lparr>occurrences = occurrences s, currentDate = date, iteration = iteration s + 1\<rparr>"
        using True push Some by (rule loop_step)
      ultimately show ?thesis by simp
    qed
  qed
qed

section \<open>The guard of the projection\<close>

lemma guard_fails:
  assumes "\<not> is_recurring ord \<or> recurrence_pattern ord = None \<or> delivery_date ord = None
     \<or> delivery_date ord = Some [] \<or> status ord = ''cancelled''"
  shows "generateRecurringOccurrences parse now ord = Inr []"
  using assms unfolding generateRecurringOccurrences_def by (simp only: if_True)

lemma guard_passes:
  assumes "is_recurring ord" and "recurrence_pattern ord = Some pattern"
    and "delivery_date ord = Some delivery" and "delivery \<noteq> []"
    and "status ord \<noteq> ''cancelled''"
  shows "generateRecurringOccurrences parse now ord =
         (case projection_run parse now ord pattern delivery of
            Inl e \<Rightarrow> Inl e
          | Inr s \<Rightarrow> Inr (occurrences s))"
  using assms by (simp add: generateRecurringOccurrences_def)

lemma guard_cases:
  obtains "generateRecurringOccurrences parse now ord = Inr []"
  | pattern delivery where "recurrence_pattern ord = Some pattern"
      and "delivery_date ord = Some delivery"
      and "generateRecurringOccurrences parse now ord =
         (case projection_run parse now ord pattern delivery of
            Inl e \<Rightarrow> Inl e
          | Inr s \<Rightarrow> Inr (occurrences s))"
proof (cases "\<not> is_recurring ord \<or> recurrence_pattern ord = None \<or> delivery_date ord = None
     \<or> delivery_date ord = Some [] \<or> status ord = ''cancelled''")
  case True
  then have "generateRecurringOccurrences parse now ord = Inr []" by (rule guard_fails)
  then show ?thesis by (rule that(1))
next
  case False
  then obtain pattern delivery where "recurrence_pattern ord = Some pattern"
    and "delivery_date ord = Some delivery" and "is_recurring ord" and "delivery \<noteq> []"
    and "status ord \<noteq> ''cancelled''" by auto
  then show ?thesis using that(2) guard_passes by blast
qed

section \<open>Properties of the projection\<close>

text \<open>
  C4: an order that fails a precondition of the projection (it is not recurring, it has no
  recurrence pattern, it has no delivery date, or it is cancelled) projects the empty
  sequence and no error is raised, whatever its other fields, the parser and the clock
  reading are.
\<close>

theorem precondition_failure_projects_nothing:
  assumes "\<not> is_recurring ord \<or> recurrence_pattern ord = None \<or> delivery_date ord = None
     \<or> status ord = ''cancelled''"
  shows "generateRecurringOccurrences parse now ord = Inr []"
  using assms by (auto intro: guard_fails)

theorem precondition_failure_projects_nothing_witness:
  "status cancelled_order = ''cancelled''
   \<and> generateRecurringOccurrences (parseISO no_other_shape) end_of_july_2024 cancelled_order = Inr []"
  using precondition_failure_projects_nothing [of cancelled_order "parseISO no_other_shape" end_of_july_2024]
  by (simp add: cancelled_order_def)

lemma loop_unknown_type:
  assumes "ftype \<noteq> Some ''daily''" and "ftype \<noteq> Some ''weekly''" and "ftype \<noteq> Some ''monthly''"
  shows "occurrence_loop ord ftype fvalue st hor \<lparr>occurrences = [], currentDate = st, iteration = 0\<rparr>
         = Inr \<lparr>occurrences = [], currentDate = st, iteration = 0\<rparr>"
proof -
  let ?s = "\<lparr>occurrences = [], currentDate = st, iteration = 0\<rparr>"
  have no: "next_occurrence ftype fvalue (currentDate ?s) = None"
    using assms by (simp add: next_occurrence_def)
  have ng: "\<not> date_gt st st" by (simp add: date_gt_def split: option.splits)
  show ?thesis
  proof (cases "date_le (currentDate ?s) hor \<and> iteration ?s < maxIterations")
    case False
    then show ?thesis by (rule loop_exit)
  next
    case True
    have "(if date_gt (currentDate ?s) st
           then push_occurrence ord (currentDate ?s) (occurrences ?s)
           else Inr (occurrences ?s)) = Inr []" using ng by simp
    with True have "occurrence_loop ord ftype fvalue st hor ?s = Inr (?s\<lparr>occurrences := []\<rparr>)"
      using no by (rule loop_break)
    then show ?thesis by simp
  qed
qed

text \<open>
  C6: for a recurrence pattern whose frequency type is none of daily, weekly and monthly,
  the loop is left by the \<^verbatim>\<open>break\<close> of its first pass, before the pass is counted and
  with nothing emitted: the projection is empty.
\<close>

theorem unknown_frequency_type_halts:
  assumes "recurrence_pattern ord = Some pattern"
    and "frequency_type pattern \<noteq> Some ''daily''"
    and "frequency_type pattern \<noteq> Some ''weekly''"
    and "frequency_type pattern \<noteq> Some ''monthly''"
  shows "generateRecurringOccurrences parse now ord = Inr []
     \<and> projection_run parse now ord pattern delivery
         = Inr \<lparr>occurrences = [], currentDate = parse delivery, iteration = 0\<rparr>"
proof -
  have run: "projection_run parse now ord pattern delivery
         = Inr \<lparr>occurrences = [], currentDate = parse delivery, iteration = 0\<rparr>" for delivery
    unfolding projection_run_def Let_def using assms(2-4) by (rule loop_unknown_type)
  have "generateRecurringOccurrences parse now ord = Inr []"
  proof (rule guard_cases [of parse now ord])
    fix p d
    assume "recurrence_pattern ord = Some p"
      and "generateRecurringOccurrences parse now ord =
         (case projection_run parse now ord p d of Inl e \<Rightarrow> Inl e | Inr s \<Rightarrow> Inr (occurrences s))"
    with assms(1) show ?thesis by (simp add: run)
  qed
  with run show ?thesis by simp
qed

theorem unknown_frequency_type_halts_witness:
  "generateRecurringOccurrences (parseISO no_other_shape) end_of_july_2024 yearly_order = Inr []
   \<and> projection_run (parseISO no_other_shape) end_of_july_2024 yearly_order yearly_pattern ''2025-01-01''
       = Inr \<lparr>occurrences = [], currentDate = parseISO no_other_shape ''2025-01-01'', iteration = 0\<rparr>"
  using unknown_frequency_type_halts [of yearly_order yearly_pattern "parseISO no_other_shape" end_of_july_2024 "''2025-01-01''"]
  by (simp add: yearly_order_def yearly_pattern_def)

lemma date_gt_neq: "date_gt (Some c) st \<Longrightarrow> Some c \<noteq> st"
  by (auto simp: date_gt_def)

lemma run_bounded:
  "\<exists>s ds. projection_run parse now ord pattern delivery = Inr s
     \<and> occurrences s = map (\<lambda>c. make_occurrence ord (format_civil c)) ds
     \<and> (\<forall>c\<in>set ds. date_gt (Some c) (parse delivery) \<and> date_le (Some c) (addMonths now 6))
     \<and> length ds \<le> maxIterations
     \<and> iteration s \<le> maxIterations"
  unfolding projection_run_def Let_def
  using loop_bounded [of ord "frequency_type pattern"
      "case frequency_value pattern of None \<Rightarrow> 1 | Some v \<Rightarrow> v" "parse delivery"
      "addMonths now 6" "\<lparr>occurrences = [], currentDate = parse delivery, iteration = 0\<rparr>"]
  by simp

lemma parse_jan1: "parseISO other ''2025-01-01'' = Some (24300, 1, 0)"
proof -
  have "plain_date ''2025-01-01''"
    by (simp add: plain_date_def is_digit_def)
  moreover have "parse_day ''2025-01-01'' = Some (24300, 1)"
    by (simp add: parse_day_def number_of_def digit_value_def daysInMonth_def getMonth_def)
  ultimately show ?thesis by (simp add: parseISO_def)
qed

lemma run_no_advance:
  assumes "frequency_value pattern = Some v" and "v \<le> 0"
  shows "\<exists>s. projection_run parse now ord pattern delivery = Inr s \<and> occurrences s = []"
proof -
  have "\<not> date_gt (parse delivery) (parse delivery)"
    by (simp add: date_gt_def split: option.splits)
  with assms show ?thesis
    unfolding projection_run_def Let_def
    using loop_no_advance [of v "\<lparr>occurrences = [], currentDate = parse delivery, iteration = 0\<rparr>"
        "parse delivery" ord "frequency_type pattern" "addMonths now 6"]
    by simp
qed

text \<open>
  C10: the projection is total. For every order, parser and clock reading it returns a
  list and raises no error; the list has at most \<open>maxIterations\<close> entries; it is empty
  when the frequency value is zero or negative; and the loop is left after at most
  \<open>maxIterations\<close> counted passes, for every recurrence pattern and delivery date.
\<close>

theorem projection_total:
  "\<exists>occs. generateRecurringOccurrences parse now ord = Inr occs
     \<and> length occs \<le> maxIterations
     \<and> (\<forall>pattern v. recurrence_pattern ord = Some pattern \<and> frequency_value pattern = Some v
           \<and> v \<le> 0 \<longrightarrow> occs = [])
     \<and> (\<exists>s. projection_run parse now ord pattern delivery = Inr s
           \<and> iteration s \<le> maxIterations)"
proof -
  have run: "\<exists>s. projection_run parse now ord pattern delivery = Inr s
           \<and> iteration s \<le> maxIterations"
    using run_bounded [of parse now ord pattern delivery] by blast
  show ?thesis
  proof (rule guard_cases [of parse now ord])
    assume "generateRecurringOccurrences parse now ord = Inr []"
    with run show ?thesis by simp
  next
    fix p d
    assume p: "recurrence_pattern ord = Some p"
      and g: "generateRecurringOccurrences parse now ord =
         (case projection_run parse now ord p d of
            Inl e \<Rightarrow> Inl e | Inr s \<Rightarrow> Inr (occurrences s))"
    obtain s ds where s: "projection_run parse now ord p d = Inr s"
      and o: "occurrences s = map (\<lambda>c. make_occurrence ord (format_civil c)) ds"
      and l: "length ds \<le> maxIterations"
      using run_bounded [of parse now ord p d] by blast
    have "occurrences s = []" if "frequency_value p = Some v" and "v \<le> 0" for v
      using run_no_advance [OF that, of parse now ord d] s by simp
    with p g s o l run show ?thesis by (intro exI [of _ "occurrences s"]) auto
  qed
qed

theorem projection_total_witness:
  "generateRecurringOccurrences (parseISO no_other_shape) end_of_july_2024 backwards_order = Inr []"
  using projection_total [of "parseISO no_other_shape" end_of_july_2024 backwards_order backwards_pattern "''2025-01-01''"]
  by (auto simp: backwards_order_def backwards_pattern_def)

lemma next_occurrence_zero:
  assumes "ftype = Some ''daily'' \<or> ftype = Some ''weekly'' \<or> ftype = Some ''monthly''"
  shows "next_occurrence ftype 0 (Some c) = Some (Some c)"
  using assms by (cases c) (auto simp: next_occurrence_def addDays_def addWeeks_def addMonths_def)

lemma loop_zero_interval:
  "fvalue = 0 \<Longrightarrow>
   ftype = Some ''daily'' \<or> ftype = Some ''weekly'' \<or> ftype = Some ''monthly'' \<Longrightarrow>
   date_le (currentDate s) hor \<Longrightarrow> \<not> date_gt (currentDate s) st \<Longrightarrow>
   iteration s \<le> maxIterations \<Longrightarrow>
   occurrence_loop ord ftype fvalue st hor s = Inr (s\<lparr>iteration := maxIterations\<rparr>)"
proof (induction ord ftype fvalue st hor s rule: occurrence_loop.induct)
  case (1 ord ftype fvalue st hor s)
  show ?case
  proof (cases "iteration s < maxIterations")
    case False
    with "1.prems" have "iteration s = maxIterations" by simp
    moreover from False have "occurrence_loop ord ftype fvalue st hor s = Inr s"
      by (intro loop_exit) simp
    ultimately show ?thesis by simp
  next
    case True
    with "1.prems" have cond: "date_le (currentDate s) hor \<and> iteration s < maxIterations"
      by simp
    from "1.prems" obtain c where c: "currentDate s = Some c"
      by (auto simp: date_le_def split: option.splits)
    have push: "(if date_gt (currentDate s) st
              then push_occurrence ord (currentDate s) (occurrences s)
              else Inr (occurrences s)) = Inr (occurrences s)"
      using "1.prems" by simp
    have nxt: "next_occurrence ftype fvalue (currentDate s) = Some (currentDate s)"
      using "1.prems" c by (simp add: next_occurrence_zero)
    let ?t = "\<lparr>occurrences = occurrences s, currentDate = currentDate s,
               iteration = iteration s + 1\<rparr>"
    have "occurrence_loop ord ftype fvalue st hor s = occurrence_loop ord ftype fvalue st hor ?t"
      using cond push nxt by (rule loop_step)
    also have "\<dots> = Inr (?t\<lparr>iteration := maxIterations\<rparr>)"
      using "1.IH" [OF cond push nxt] "1.prems" True by simp
    also have "?t\<lparr>iteration := maxIterations\<rparr> = s\<lparr>iteration := maxIterations\<rparr>"
      by simp
    finally show ?thesis .
  qed
qed

lemma july_horizon: "addMonths end_of_july_2024 6 = Some (24300, 31, 0)"
  by (simp add: addMonths_def end_of_july_2024_def daysInMonth_def getMonth_def
        timeClip_def minDate_def maxDate_def)

text \<open>
  C5, as the code has it: a frequency value of zero or below is not rejected and raises no
  error. For an order that passes the guard, with a frequency type of daily, weekly or
  monthly and an anchor that is a valid date not after the horizon, the loop is entered
  and completes at least one pass; with a frequency value of zero it completes all
  \<open>maxIterations\<close> passes, the date never moving. Nothing is emitted: the projection is the
  empty list.
\<close>

theorem nonpositive_interval_not_rejected:
  assumes "is_recurring ord" and "recurrence_pattern ord = Some pattern"
    and "delivery_date ord = Some delivery" and "delivery \<noteq> []"
    and "status ord \<noteq> ''cancelled''"
    and "frequency_type pattern = Some ''daily'' \<or> frequency_type pattern = Some ''weekly''
         \<or> frequency_type pattern = Some ''monthly''"
    and "frequency_value pattern = Some v" and "v \<le> 0"
    and "date_le (parse delivery) (addMonths now 6)"
  shows "generateRecurringOccurrences parse now ord = Inr []
     \<and> (\<exists>s. projection_run parse now ord pattern delivery = Inr s
           \<and> occurrences s = [] \<and> 1 \<le> iteration s
           \<and> (v = 0 \<longrightarrow> iteration s = maxIterations))"
proof -
  let ?st = "parse delivery" and ?hor = "addMonths now 6" and ?ft = "frequency_type pattern"
  let ?s0 = "\<lparr>occurrences = [], currentDate = ?st, iteration = 0\<rparr>"
  have run: "projection_run parse now ord pattern delivery = occurrence_loop ord ?ft v ?st ?hor ?s0"
    using assms(7) by (simp add: projection_run_def Let_def)
  have ng: "\<not> date_gt (currentDate ?s0) ?st" by (simp add: date_gt_def split: option.splits)
  have cond: "date_le (currentDate ?s0) ?hor \<and> iteration ?s0 < maxIterations"
    using assms(9) by (simp add: maxIterations_def)
  have push: "(if date_gt (currentDate ?s0) ?st
              then push_occurrence ord (currentDate ?s0) (occurrences ?s0)
              else Inr (occurrences ?s0)) = Inr []"
    using ng by simp
  obtain date where nxt: "next_occurrence ?ft v (currentDate ?s0) = Some date"
    using assms(6) by (auto simp: next_occurrence_def)
  let ?s1 = "\<lparr>occurrences = [], currentDate = date, iteration = iteration ?s0 + 1\<rparr>"
  have first: "occurrence_loop ord ?ft v ?st ?hor ?s0 = occurrence_loop ord ?ft v ?st ?hor ?s1"
    using cond push nxt by (rule loop_step)
  obtain s where s: "occurrence_loop ord ?ft v ?st ?hor ?s1 = Inr s"
    and it: "iteration ?s1 \<le> iteration s"
    using loop_bounded [of ord ?ft v ?st ?hor ?s1] by blast
  obtain s' where "occurrence_loop ord ?ft v ?st ?hor ?s0 = Inr s'" and "occurrences s' = occurrences ?s0"
    using loop_no_advance [OF assms(8) ng, of ord ?ft ?hor] by blast
  with first s have empty: "occurrences s = []" by simp
  have full: "iteration s = maxIterations" if "v = 0"
  proof -
    have "occurrence_loop ord ?ft v ?st ?hor ?s0 = Inr (?s0\<lparr>iteration := maxIterations\<rparr>)"
      using that assms(6) cond ng by (intro loop_zero_interval) simp_all
    with first s show ?thesis by auto
  qed
  have r: "projection_run parse now ord pattern delivery = Inr s" using run first s by simp
  moreover have "generateRecurringOccurrences parse now ord = Inr []"
    using guard_passes [OF assms(1-5), of parse now] r empty by simp
  ultimately show ?thesis using empty it full by auto
qed

theorem nonpositive_interval_not_rejected_witness:
  "generateRecurringOccurrences (parseISO no_other_shape) end_of_july_2024 zero_interval_order = Inr []
     \<and> (\<exists>s. projection_run (parseISO no_other_shape) end_of_july_2024 zero_interval_order zero_pattern ''2025-01-01'' = Inr s
           \<and> occurrences s = [] \<and> 1 \<le> iteration s \<and> iteration s = 200)"
  using nonpositive_interval_not_rejected [of zero_interval_order zero_pattern "''2025-01-01''" 0
      "parseISO no_other_shape" end_of_july_2024]
  by (simp add: zero_interval_order_def zero_pattern_def weekly_order_def parse_jan1 july_horizon
        date_le_def maxIterations_def)

text \<open>
  C5, as stated, fails: the claim has a frequency value of zero rejected before the loop
  is entered. For the weekly order with interval zero the loop is entered and left only
  by the safety limit, after 200 passes, and the run ends without an error.
\<close>

theorem zero_interval_enters_loop:
  "projection_run (parseISO no_other_shape) end_of_july_2024 zero_interval_order zero_pattern ''2025-01-01''
   = Inr \<lparr>occurrences = [], currentDate = Some (24300, 1, 0), iteration = 200\<rparr>"
proof -
  let ?s0 = "\<lparr>occurrences = [], currentDate = Some (24300, 1, 0), iteration = 0\<rparr>"
  have "occurrence_loop zero_interval_order (Some ''weekly'') 0 (Some (24300, 1, 0))
          (Some (24300, 31, 0)) ?s0 = Inr (?s0\<lparr>iteration := maxIterations\<rparr>)"
    by (intro loop_zero_interval) (simp_all add: date_le_def date_gt_def)
  then show ?thesis
    by (simp add: projection_run_def Let_def zero_pattern_def parse_jan1 july_horizon maxIterations_def)
qed

subsection \<open>The weekly order in January 2025\<close>

lemma in_range_2025: "timeClip (24300, d, 0) = Some (24300, d, 0)"
  by (simp add: timeClip_def minDate_def maxDate_def)

lemma in_range_2025_feb: "timeClip (24301, d, 0) = Some (24301, d, 0)"
  by (simp add: timeClip_def minDate_def maxDate_def)

lemma january_2025: "daysInMonth 24300 = 31"
  by (simp add: daysInMonth_def getMonth_def)

lemma week_1: "addWeeks (Some (24300, 1, 0)) 1 = Some (24300, 8, 0)"
  by (simp add: addWeeks_def addDays_def eval_nat_numeral january_2025 in_range_2025)

lemma week_2: "addWeeks (Some (24300, 8, 0)) 1 = Some (24300, 15, 0)"
  by (simp add: addWeeks_def addDays_def eval_nat_numeral january_2025 in_range_2025)

lemma week_3: "addWeeks (Some (24300, 15, 0)) 1 = Some (24300, 22, 0)"
  by (simp add: addWeeks_def addDays_def eval_nat_numeral january_2025 in_range_2025)

lemma week_4: "addWeeks (Some (24300, 22, 0)) 1 = Some (24300, 29, 0)"
  by (simp add: addWeeks_def addDays_def eval_nat_numeral january_2025 in_range_2025)

lemma week_5: "addWeeks (Some (24300, 29, 0)) 1 = Some (24301, 5, 0)"
  by (simp add: addWeeks_def addDays_def eval_nat_numeral january_2025 in_range_2025_feb
        daysInMonth_def getMonth_def)

lemma padded:
  "addLeadingZeros 2025 4 = ''2025''"
  "addLeadingZeros 0 2 = ''00''"
  "addLeadingZeros 8 2 = ''08''"
  "addLeadingZeros 15 2 = ''15''"
  "addLeadingZeros 22 2 = ''22''"
  "addLeadingZeros 29 2 = ''29''"
  by (simp_all add: addLeadingZeros_def digits.simps)

lemma padded_one: "addLeadingZeros (Suc 0) 2 = ''01''"
  by (simp add: addLeadingZeros_def digits.simps [of "Suc 0"])

lemma format_january:
  "format_civil (24300, 8, 0) = ''2025-01-08T00:00:00''"
  "format_civil (24300, 15, 0) = ''2025-01-15T00:00:00''"
  "format_civil (24300, 22, 0) = ''2025-01-22T00:00:00''"
  "format_civil (24300, 29, 0) = ''2025-01-29T00:00:00''"
  by (simp_all add: format_civil_def Let_def getFullYear_def getMonth_def padded padded_one)


lemma weekly_pass:
  assumes "currentDate s = Some c" and "date_le (Some c) hor" and "iteration s < maxIterations"
    and "addWeeks (Some c) fvalue = date" and "n = iteration s + 1"
    and "occs = (if date_gt (Some c) st
                 then occurrences s @ [make_occurrence ord (format_civil c)]
                 else occurrences s)"
  shows "occurrence_loop ord (Some ''weekly'') fvalue st hor s =
         occurrence_loop ord (Some ''weekly'') fvalue st hor
           \<lparr>occurrences = occs, currentDate = date, iteration = n\<rparr>"
  unfolding assms(5)
  using assms(1-4,6)
  by (intro loop_step) (simp_all add: next_occurrence_def push_occurrence_def format_date_def)

lemma weekly_january_loop:
  "occurrence_loop weekly_order (Some ''weekly'') 1 (Some (24300, 1, 0)) (Some (24300, 31, 0))
     \<lparr>occurrences = [], currentDate = Some (24300, 1, 0), iteration = 0\<rparr>
   = Inr \<lparr>occurrences = map (make_occurrence weekly_order)
               [''2025-01-08T00:00:00'', ''2025-01-15T00:00:00'',
                ''2025-01-22T00:00:00'', ''2025-01-29T00:00:00''],
            currentDate = Some (24301, 5, 0), iteration = 5\<rparr>"
  (is "?loop \<lparr>occurrences = [], currentDate = Some (24300, 1, 0), iteration = 0\<rparr> = _")
proof -
  note eval = date_le_def date_gt_def maxIterations_def format_january
  let ?o1 = "make_occurrence weekly_order ''2025-01-08T00:00:00''"
  let ?o2 = "make_occurrence weekly_order ''2025-01-15T00:00:00''"
  let ?o3 = "make_occurrence weekly_order ''2025-01-22T00:00:00''"
  let ?o4 = "make_occurrence weekly_order ''2025-01-29T00:00:00''"
  have "?loop \<lparr>occurrences = [], currentDate = Some (24300, 1, 0), iteration = 0\<rparr>
        = ?loop \<lparr>occurrences = [], currentDate = Some (24300, 8, 0), iteration = 1\<rparr>"
    by (rule weekly_pass [where c = "(24300, 1, 0)"])
       (simp_all add: eval week_1 [unfolded One_nat_def])
  also have "\<dots> = ?loop \<lparr>occurrences = [?o1], currentDate = Some (24300, 15, 0), iteration = 2\<rparr>"
    by (rule weekly_pass [where c = "(24300, 8, 0)"])
       (simp_all add: eval week_2)
  also have "\<dots> = ?loop \<lparr>occurrences = [?o1, ?o2], currentDate = Some (24300, 22, 0), iteration = 3\<rparr>"
    by (rule weekly_pass [where c = "(24300, 15, 0)"])
       (simp_all add: eval week_3)
  also have "\<dots> = ?loop \<lparr>occurrences = [?o1, ?o2, ?o3], currentDate = Some (24300, 29, 0),
                       iteration = 4\<rparr>"
    by (rule weekly_pass [where c = "(24300, 22, 0)"])
       (simp_all add: eval week_4)
  also have "\<dots> = ?loop \<lparr>occurrences = [?o1, ?o2, ?o3, ?o4], currentDate = Some (24301, 5, 0),
                       iteration = 5\<rparr>"
    by (rule weekly_pass [where c = "(24300, 29, 0)"])
       (simp_all add: eval week_5)
  also have "\<dots> = Inr \<lparr>occurrences = [?o1, ?o2, ?o3, ?o4], currentDate = Some (24301, 5, 0),
                       iteration = 5\<rparr>"
    by (rule loop_exit) (simp add: date_le_def)
  finally show ?thesis by simp
qed


text \<open>
  C3: the order with delivery date 2025-01-01 and a weekly pattern of interval one,
  projected at a clock reading whose horizon is 2025-01-31 (with the limit of 200 passes),
  gives exactly four occurrences, on 8, 15, 22 and 29 January 2025: the anchor is not
  among them and the last one is not after the horizon.
\<close>

theorem weekly_january_projection:
  "addMonths end_of_july_2024 6 = parseISO other ''2025-01-31''
   \<and> generateRecurringOccurrences (parseISO other) end_of_july_2024 weekly_order
       = Inr (map (make_occurrence weekly_order)
               [''2025-01-08T00:00:00'', ''2025-01-15T00:00:00'',
                ''2025-01-22T00:00:00'', ''2025-01-29T00:00:00''])"
proof -
  have "plain_date ''2025-01-31''"
    by (simp add: plain_date_def is_digit_def)
  moreover have "parse_day ''2025-01-31'' = Some (24300, 31)"
    by (simp add: parse_day_def number_of_def digit_value_def january_2025)
  ultimately have horizon: "parseISO other ''2025-01-31'' = Some (24300, 31, 0)"
    by (simp add: parseISO_def)
  have "projection_run (parseISO other) end_of_july_2024 weekly_order weekly_pattern ''2025-01-01''
        = Inr \<lparr>occurrences = map (make_occurrence weekly_order)
               [''2025-01-08T00:00:00'', ''2025-01-15T00:00:00'',
                ''2025-01-22T00:00:00'', ''2025-01-29T00:00:00''],
               currentDate = Some (24301, 5, 0), iteration = 5\<rparr>"
    using weekly_january_loop
    by (simp add: projection_run_def Let_def weekly_pattern_def parse_jan1 july_horizon)
  moreover have "generateRecurringOccurrences (parseISO other) end_of_july_2024 weekly_order =
         (case projection_run (parseISO other) end_of_july_2024 weekly_order weekly_pattern ''2025-01-01'' of
            Inl e \<Rightarrow> Inl e
          | Inr s \<Rightarrow> Inr (occurrences s))"
    by (rule guard_passes) (simp_all add: weekly_order_def)
  ultimately show ?thesis by (simp add: july_horizon horizon)
qed

theorem weekly_january_projection_witness:
  "is_recurring weekly_order \<and> recurrence_pattern weekly_order = Some weekly_pattern
   \<and> delivery_date weekly_order = Some ''2025-01-01'' \<and> status weekly_order = ''scheduled''
   \<and> (\<exists>occs. generateRecurringOccurrences (parseISO no_other_shape) end_of_july_2024 weekly_order = Inr occs
          \<and> length occs = 4
          \<and> map delivery_date occs
              = [Some ''2025-01-08T00:00:00'', Some ''2025-01-15T00:00:00'',
                 Some ''2025-01-22T00:00:00'', Some ''2025-01-29T00:00:00''])"
  using weekly_january_projection [of no_other_shape]
  by (simp add: weekly_order_def make_occurrence_def order.defs)

section \<open>Dates stay well formed\<close>

lemma daysInMonth_bounds: "28 \<le> daysInMonth mi \<and> daysInMonth mi \<le> 31"
  by (simp add: daysInMonth_def Let_def)

lemma nextDay_keeps:
  assumes "wellformed c"
  shows "wellformed (nextDay c) \<and> millisecond (nextDay c) = millisecond c"
proof -
  obtain mi d ms where c: "c = (mi, d, ms)" by (cases c)
  have "1 \<le> daysInMonth (mi + 1)" using daysInMonth_bounds [of "mi + 1"] by simp
  with assms c show ?thesis by (simp add: wellformed_def millisecond_def)
qed

lemma prevDay_keeps:
  assumes "wellformed c"
  shows "wellformed (prevDay c) \<and> millisecond (prevDay c) = millisecond c"
proof -
  obtain mi d ms where c: "c = (mi, d, ms)" by (cases c)
  have "1 \<le> daysInMonth (mi - 1)" using daysInMonth_bounds [of "mi - 1"] by simp
  with assms c show ?thesis by (auto simp: wellformed_def millisecond_def)
qed

lemma forward_keeps:
  "wellformed c \<Longrightarrow> wellformed (forward n c) \<and> millisecond (forward n c) = millisecond c"
  by (induction n arbitrary: c) (simp_all add: nextDay_keeps)

lemma backward_keeps:
  "wellformed c \<Longrightarrow> wellformed (backward n c) \<and> millisecond (backward n c) = millisecond c"
  by (induction n arbitrary: c) (simp_all add: prevDay_keeps)

lemma addDays_keeps:
  assumes "wellformed c" and "addDays (Some c) amount = Some c'"
  shows "wellformed c' \<and> millisecond c' = millisecond c"
  using assms forward_keeps [of c "nat amount"] backward_keeps [of c "nat (- amount)"]
  by (auto simp: addDays_def split: if_splits dest!: timeClip_Some)

lemma addWeeks_keeps:
  assumes "wellformed c" and "addWeeks (Some c) amount = Some c'"
  shows "wellformed c' \<and> millisecond c' = millisecond c"
  using assms addDays_keeps [of c "amount * 7" c'] by (simp add: addWeeks_def)

lemma addMonths_keeps:
  assumes "wellformed c" and "addMonths (Some c) amount = Some c'"
  shows "wellformed c' \<and> millisecond c' = millisecond c"
proof -
  obtain mi d ms where c: "c = (mi, d, ms)" by (cases c)
  have "1 \<le> daysInMonth (mi + amount)" using daysInMonth_bounds [of "mi + amount"] by simp
  with assms c show ?thesis
    by (auto simp: addMonths_def wellformed_def millisecond_def
          split: if_splits option.splits dest!: timeClip_Some)
qed

lemma next_occurrence_keeps:
  assumes "wellformed c" and "next_occurrence ftype fvalue (Some c) = Some (Some c')"
  shows "wellformed c' \<and> millisecond c' = millisecond c"
  using assms
  by (auto simp: next_occurrence_def split: if_splits
        dest: addDays_keeps addWeeks_keeps addMonths_keeps)

lemma push_current:
  assumes "date_le (currentDate s) hor"
  shows "\<exists>new. (if date_gt (currentDate s) st
             then push_occurrence ord (currentDate s) (occurrences s)
             else Inr (occurrences s))
           = Inr (occurrences s @ map (\<lambda>c. make_occurrence ord (format_civil c)) new)
         \<and> length new \<le> 1
         \<and> (\<forall>c\<in>set new. currentDate s = Some c \<and> date_gt (Some c) st \<and> date_le (Some c) hor)"
proof -
  from assms obtain c where c: "currentDate s = Some c"
    by (auto simp: date_le_def split: option.splits)
  show ?thesis
  proof (cases "date_gt (currentDate s) st")
    case True
    with assms c show ?thesis
      by (intro exI [of _ "[c]"]) (simp add: push_occurrence_def format_date_def)
  next
    case False
    then show ?thesis by (intro exI [of _ "[]"]) simp
  qed
qed

lemma loop_pushed:
  "(\<forall>c. currentDate s = Some c \<longrightarrow> wellformed c \<and> millisecond c = m) \<Longrightarrow>
   \<exists>s' ds. occurrence_loop ord ftype fvalue st hor s = Inr s'
     \<and> occurrences s' = occurrences s @ map (\<lambda>c. make_occurrence ord (format_civil c)) ds
     \<and> (\<forall>c\<in>set ds. wellformed c \<and> millisecond c = m
            \<and> date_gt (Some c) st \<and> date_le (Some c) hor)
     \<and> length ds \<le> maxIterations - iteration s"
proof (induction ord ftype fvalue st hor s rule: occurrence_loop.induct)
  case (1 ord ftype fvalue st hor s)
  let ?occ = "\<lambda>c. make_occurrence ord (format_civil c)"
  show ?case
  proof (cases "date_le (currentDate s) hor \<and> iteration s < maxIterations")
    case False
    then have "occurrence_loop ord ftype fvalue st hor s = Inr s" by (rule loop_exit)
    then show ?thesis by (intro exI [of _ s] exI [of _ "[]"]) simp
  next
    case True
    then obtain new where
      push: "(if date_gt (currentDate s) st
              then push_occurrence ord (currentDate s) (occurrences s)
              else Inr (occurrences s)) = Inr (occurrences s @ map ?occ new)"
      and len: "length new \<le> 1"
      and new: "\<forall>c\<in>set new. currentDate s = Some c \<and> date_gt (Some c) st \<and> date_le (Some c) hor"
      using push_current [of s hor st ord] by blast
    from new "1.prems" have new':
      "\<forall>c\<in>set new. wellformed c \<and> millisecond c = m \<and> date_gt (Some c) st \<and> date_le (Some c) hor"
      by blast
    have small: "length new \<le> maxIterations - iteration s" using len True by arith
    show ?thesis
    proof (cases "next_occurrence ftype fvalue (currentDate s)")
      case None
      have "occurrence_loop ord ftype fvalue st hor s
            = Inr (s\<lparr>occurrences := occurrences s @ map ?occ new\<rparr>)"
        using True push None by (rule loop_break)
      with small new' show ?thesis
        by (intro exI [of _ "s\<lparr>occurrences := occurrences s @ map ?occ new\<rparr>"] exI [of _ new])
           simp
    next
      case (Some date)
      let ?t = "\<lparr>occurrences = occurrences s @ map ?occ new, currentDate = date,
                 iteration = iteration s + 1\<rparr>"
      from True obtain c where c: "currentDate s = Some c"
        by (auto simp: date_le_def split: option.splits)
      have inv: "\<forall>c'. currentDate ?t = Some c' \<longrightarrow> wellformed c' \<and> millisecond c' = m"
      proof (intro allI impI)
        fix c'
        assume "currentDate ?t = Some c'"
        with Some c have "next_occurrence ftype fvalue (Some c) = Some (Some c')" by simp
        moreover from "1.prems" c have "wellformed c" and "millisecond c = m" by simp_all
        ultimately show "wellformed c' \<and> millisecond c' = m"
          using next_occurrence_keeps [of c ftype fvalue c'] by simp
      qed
      have eq: "occurrence_loop ord ftype fvalue st hor s
                = occurrence_loop ord ftype fvalue st hor ?t"
        using True push Some by (rule loop_step)
      from "1.IH" [OF True push Some inv] obtain s' ds where
        r: "occurrence_loop ord ftype fvalue st hor ?t = Inr s'"
        and o: "occurrences s' = occurrences ?t @ map ?occ ds"
        and d: "\<forall>c\<in>set ds. wellformed c \<and> millisecond c = m
                  \<and> date_gt (Some c) st \<and> date_le (Some c) hor"
        and l: "length ds \<le> maxIterations - iteration ?t"
        by blast
      have "occurrences s' = occurrences s @ map ?occ (new @ ds)" using o by simp
      moreover have "\<forall>c\<in>set (new @ ds). wellformed c \<and> millisecond c = m
                  \<and> date_gt (Some c) st \<and> date_le (Some c) hor"
        using new' d by auto
      moreover have "length (new @ ds) \<le> maxIterations - iteration s"
        using len l True by auto
      ultimately show ?thesis using eq r by (intro exI [of _ s'] exI [of _ "new @ ds"]) simp
    qed
  qed
qed

section \<open>Reading back what format writes\<close>

lemma below_ten:
  assumes "k < (10::nat)"
  shows "k = 0 \<or> k = 1 \<or> k = 2 \<or> k = 3 \<or> k = 4 \<or> k = 5 \<or> k = 6 \<or> k = 7 \<or> k = 8 \<or> k = 9"
  using assms by presburger

lemma digit_char:
  assumes "k < 10"
  shows "is_digit (''0123456789'' ! k) \<and> digit_value (''0123456789'' ! k) = k"
  using below_ten [OF assms] by (elim disjE) (simp_all add: is_digit_def digit_value_def)

lemma replicate_small:
  "replicate 2 c = [c, c]" "replicate 3 c = [c, c, c]"
  by (simp_all add: numeral_2_eq_2 numeral_3_eq_3)

lemma digits_one: "n < 10 \<Longrightarrow> digits n = [''0123456789'' ! n]"
  by (subst digits.simps) simp

lemma digits_two:
  assumes "10 \<le> n" and "n < 100"
  shows "digits n = [''0123456789'' ! (n div 10), ''0123456789'' ! (n mod 10)]"
proof -
  from assms have "n div 10 < 10" by simp
  then have "digits (n div 10) = [''0123456789'' ! (n div 10)]" by (rule digits_one)
  with assms show ?thesis by (subst digits.simps) simp
qed

lemma digits_three:
  assumes "100 \<le> n" and "n < 1000"
  shows "digits n = [''0123456789'' ! (n div 100), ''0123456789'' ! (n div 10 mod 10),
                     ''0123456789'' ! (n mod 10)]"
proof -
  from assms have "10 \<le> n div 10" and "n div 10 < 100" by simp_all
  then have "digits (n div 10) = [''0123456789'' ! (n div 10 div 10), ''0123456789'' ! (n div 10 mod 10)]"
    by (rule digits_two)
  moreover have "n div 10 div 10 = n div 100" by (simp add: div_mult2_eq [symmetric])
  ultimately show ?thesis using assms by (subst digits.simps) simp
qed

lemma digits_four:
  assumes "1000 \<le> n" and "n < 10000"
  shows "digits n = [''0123456789'' ! (n div 1000), ''0123456789'' ! (n div 100 mod 10),
                     ''0123456789'' ! (n div 10 mod 10), ''0123456789'' ! (n mod 10)]"
proof -
  from assms have "100 \<le> n div 10" and "n div 10 < 1000" by simp_all
  then have "digits (n div 10) = [''0123456789'' ! (n div 10 div 100),
       ''0123456789'' ! (n div 10 div 10 mod 10), ''0123456789'' ! (n div 10 mod 10)]"
    by (rule digits_three)
  moreover have "n div 10 div 100 = n div 1000" "n div 10 div 10 = n div 100"
    by (simp_all add: div_mult2_eq [symmetric])
  ultimately show ?thesis using assms by (subst digits.simps) simp
qed

lemma number_of_two: "number_of [a, b] = 10 * digit_value a + digit_value b"
  by (simp add: number_of_def)

lemma number_of_four:
  "number_of [a, b, c, d]
   = 1000 * digit_value a + 100 * digit_value b + 10 * digit_value c + digit_value d"
  by (simp add: number_of_def)

lemma two_written:
  assumes "n < 100"
  shows "\<exists>a b. addLeadingZeros n 2 = [a, b] \<and> is_digit a \<and> is_digit b \<and> number_of [a, b] = n"
proof -
  let ?a = "''0123456789'' ! (n div 10)" and ?b = "''0123456789'' ! (n mod 10)"
  have a: "is_digit ?a \<and> digit_value ?a = n div 10" using assms by (intro digit_char) simp
  have b: "is_digit ?b \<and> digit_value ?b = n mod 10" by (intro digit_char) simp
  have "addLeadingZeros n 2 = [?a, ?b]"
  proof (cases "n < 10")
    case True
    then show ?thesis by (simp add: addLeadingZeros_def digits_one)
  next
    case False
    with assms show ?thesis by (simp add: addLeadingZeros_def digits_two)
  qed
  moreover have "number_of [?a, ?b] = n" using a b by (simp add: number_of_two)
  ultimately show ?thesis using a b by blast
qed

lemma four_written:
  assumes "n < 10000"
  shows "\<exists>a b c d. addLeadingZeros n 4 = [a, b, c, d]
     \<and> is_digit a \<and> is_digit b \<and> is_digit c \<and> is_digit d \<and> number_of [a, b, c, d] = n"
proof -
  let ?a = "''0123456789'' ! (n div 1000)" and ?b = "''0123456789'' ! (n div 100 mod 10)"
  let ?c = "''0123456789'' ! (n div 10 mod 10)" and ?d = "''0123456789'' ! (n mod 10)"
  have a: "is_digit ?a \<and> digit_value ?a = n div 1000" using assms by (intro digit_char) simp
  have b: "is_digit ?b \<and> digit_value ?b = n div 100 mod 10" by (intro digit_char) simp
  have c: "is_digit ?c \<and> digit_value ?c = n div 10 mod 10" by (intro digit_char) simp
  have d: "is_digit ?d \<and> digit_value ?d = n mod 10" by (intro digit_char) simp
  consider "n < 10" | "10 \<le> n" "n < 100" | "100 \<le> n" "n < 1000" | "1000 \<le> n"
    by linarith
  then have "addLeadingZeros n 4 = [?a, ?b, ?c, ?d]"
  proof cases
    case 1
    then show ?thesis by (simp add: addLeadingZeros_def digits_one replicate_small)
  next
    case 2
    then show ?thesis by (simp add: addLeadingZeros_def digits_two replicate_small)
  next
    case 3
    then show ?thesis by (simp add: addLeadingZeros_def digits_three)
  next
    case 4
    with assms show ?thesis by (simp add: addLeadingZeros_def digits_four)
  qed
  moreover have "number_of [?a, ?b, ?c, ?d] = n"
  proof -
    have "n div 10 div 10 = n div 100" "n div 100 div 10 = n div 1000"
      by (simp_all add: div_mult2_eq [symmetric])
    then have "n div 10 = 10 * (n div 100) + n div 10 mod 10"
      and "n div 100 = 10 * (n div 1000) + n div 100 mod 10"
      using div_mult_mod_eq [of "n div 10" 10] div_mult_mod_eq [of "n div 100" 10] by simp_all
    moreover have "n = 10 * (n div 10) + n mod 10" by simp
    ultimately have "n = 1000 * (n div 1000) + 100 * (n div 100 mod 10) + 10 * (n div 10 mod 10)
        + n mod 10" by linarith
    with a b c d show ?thesis by (simp add: number_of_four)
  qed
  ultimately show ?thesis using a b c d by blast
qed

lemma parse_written:
  assumes "is_digit y1" "is_digit y2" "is_digit y3" "is_digit y4"
    and "is_digit m1" "is_digit m2" "is_digit d1" "is_digit d2"
    and "is_digit h1" "is_digit h2" "is_digit n1" "is_digit n2" "is_digit s1" "is_digit s2"
    and "number_of [y1, y2, y3, y4] = y" and "number_of [m1, m2] = m" and "number_of [d1, d2] = d"
    and "number_of [h1, h2] = h" and "number_of [n1, n2] = n" and "number_of [s1, s2] = sec"
    and "1 \<le> m" "m \<le> 12" "1 \<le> d" "d \<le> daysInMonth (int y * 12 + int m - 1)"
    and "h < 24" "n < 60" "sec < 60"
  shows "parseISO other ([y1, y2, y3, y4] @ ''-'' @ [m1, m2] @ ''-'' @ [d1, d2] @ ''T''
           @ [h1, h2] @ '':'' @ [n1, n2] @ '':'' @ [s1, s2])
         = Some (int y * 12 + int m - 1, d, int h * 3600000 + int n * 60000 + int sec * 1000)"
proof -
  let ?s = "[y1, y2, y3, y4] @ ''-'' @ [m1, m2] @ ''-'' @ [d1, d2] @ ''T''
           @ [h1, h2] @ '':'' @ [n1, n2] @ '':'' @ [s1, s2]"
  have whole: "\<not> plain_date ?s" by (simp add: plain_date_def)
  have shape: "length ?s = 19 \<and> ?s ! 10 = CHR ''T''" by simp
  have day: "take 10 ?s = [y1, y2, y3, y4, CHR ''-'', m1, m2, CHR ''-'', d1, d2]" by simp
  have time: "drop 11 ?s = [h1, h2, CHR '':'', n1, n2, CHR '':'', s1, s2]" by simp
  have pd: "plain_date (take 10 ?s)"
    unfolding day using assms(1-8) by (simp add: plain_date_def)
  have pt: "plain_time (drop 11 ?s)"
    unfolding time using assms(9-14) by (simp add: plain_time_def)
  have d: "parse_day (take 10 ?s) = Some (int y * 12 + int m - 1, d)"
    unfolding day using assms(15-17,21-24) by (simp add: parse_day_def)
  have t: "parse_time (drop 11 ?s) = Some (int h * 3600000 + int n * 60000 + int sec * 1000)"
    unfolding time using assms(18-20,25-27) by (simp add: parse_time_def)
  have "int h * 3600000 + int n * 60000 + int sec * 1000 \<noteq> 86400000"
    using assms(25-27) by linarith
  with whole shape pd pt d t show ?thesis
    unfolding parseISO_def by (simp only: if_False if_True simp_thms option.case prod.case)
qed

lemma time_of_day:
  fixes ms :: int
  shows "(ms div 3600000) * 3600000 + (ms div 60000 mod 60) * 60000 + (ms div 1000 mod 60) * 1000
         = ms - ms mod 1000"
proof -
  have a: "ms div 60000 = ms div 1000 div 60" "ms div 3600000 = ms div 60000 div 60"
    by (simp_all add: zdiv_zmult2_eq [symmetric])
  have "ms = 1000 * (ms div 1000) + ms mod 1000" by simp
  moreover have "ms div 1000 = 60 * (ms div 60000) + ms div 1000 mod 60"
    using div_mult_mod_eq [of "ms div 1000" 60] a by simp
  moreover have "ms div 60000 = 60 * (ms div 3600000) + ms div 60000 mod 60"
    using div_mult_mod_eq [of "ms div 60000" 60] a by simp
  ultimately show ?thesis by linarith
qed

lemma hour_of_day:
  fixes ms :: int
  assumes "0 \<le> ms" and "ms < 86400000"
  shows "0 \<le> ms div 3600000 \<and> ms div 3600000 < 24"
  using assms by (simp add: div_less_iff_less_mult pos_imp_zdiv_nonneg_iff)

lemma format_written:
  assumes "1 \<le> getFullYear mi"
    and "addLeadingZeros (nat (getFullYear mi)) 4 = [y1, y2, y3, y4]"
    and "addLeadingZeros (getMonth mi + 1) 2 = [m1, m2]"
    and "addLeadingZeros d 2 = [d1, d2]"
    and "addLeadingZeros (nat (ms div 3600000)) 2 = [h1, h2]"
    and "addLeadingZeros (nat (ms div 60000 mod 60)) 2 = [n1, n2]"
    and "addLeadingZeros (nat (ms div 1000 mod 60)) 2 = [s1, s2]"
  shows "format_civil (mi, d, ms)
        = [y1, y2, y3, y4] @ ''-'' @ [m1, m2] @ ''-'' @ [d1, d2] @ ''T''
           @ [h1, h2] @ '':'' @ [n1, n2] @ '':'' @ [s1, s2]"
proof -
  have "(if 0 < getFullYear mi then getFullYear mi else 1 - getFullYear mi) = getFullYear mi"
    using assms(1) by simp
  then show ?thesis
    unfolding format_civil_def Let_def prod.case by (simp only: assms(2-7))
qed

lemma parse_format:
  assumes "wellformed (mi, d, ms)" and "1 \<le> getFullYear mi" and "getFullYear mi \<le> 9999"
  shows "parseISO other (format_civil (mi, d, ms)) = Some (mi, d, ms - ms mod 1000)"
proof -
  define y where "y = nat (getFullYear mi)"
  define m where "m = getMonth mi + 1"
  define h where "h = nat (ms div 3600000)"
  define n where "n = nat (ms div 60000 mod 60)"
  define sec where "sec = nat (ms div 1000 mod 60)"
  from assms(1) have d: "1 \<le> d" "d \<le> daysInMonth mi" and ms: "0 \<le> ms" "ms < 86400000"
    by (simp_all add: wellformed_def)
  have y: "y < 10000" "int y = mi div 12"
    using assms(2,3) unfolding y_def getFullYear_def by linarith+
  have "0 \<le> mi mod 12" "mi mod 12 < 12" by simp_all
  then have m: "1 \<le> m" "m \<le> 12" "m < 100" "int m = mi mod 12 + 1"
    unfolding m_def getMonth_def by linarith+
  have "mi = 12 * (mi div 12) + mi mod 12" by simp
  then have index: "int y * 12 + int m - 1 = mi" using y(2) m(4) by linarith
  have d100: "d < 100" using d(2) daysInMonth_bounds [of mi] by linarith
  have h: "h < 24" "h < 100" "int h = ms div 3600000"
    using hour_of_day [OF ms] unfolding h_def by linarith+
  have "0 \<le> ms div 60000 mod 60" "ms div 60000 mod 60 < 60" by simp_all
  then have n: "n < 60" "n < 100" "int n = ms div 60000 mod 60"
    unfolding n_def by linarith+
  have "0 \<le> ms div 1000 mod 60" "ms div 1000 mod 60 < 60" by simp_all
  then have sec: "sec < 60" "sec < 100" "int sec = ms div 1000 mod 60"
    unfolding sec_def by linarith+
  obtain y1 y2 y3 y4 where yw: "addLeadingZeros y 4 = [y1, y2, y3, y4]"
      "is_digit y1" "is_digit y2" "is_digit y3" "is_digit y4" "number_of [y1, y2, y3, y4] = y"
    using four_written [OF y(1)] by blast
  obtain m1 m2 where mw: "addLeadingZeros m 2 = [m1, m2]" "is_digit m1" "is_digit m2"
      "number_of [m1, m2] = m"
    using two_written [OF m(3)] by blast
  obtain d1 d2 where dw: "addLeadingZeros d 2 = [d1, d2]" "is_digit d1" "is_digit d2"
      "number_of [d1, d2] = d"
    using two_written [OF d100] by blast
  obtain h1 h2 where hw: "addLeadingZeros h 2 = [h1, h2]" "is_digit h1" "is_digit h2"
      "number_of [h1, h2] = h"
    using two_written [OF h(2)] by blast
  obtain n1 n2 where nw: "addLeadingZeros n 2 = [n1, n2]" "is_digit n1" "is_digit n2"
      "number_of [n1, n2] = n"
    using two_written [OF n(2)] by blast
  obtain s1 s2 where sw: "addLeadingZeros sec 2 = [s1, s2]" "is_digit s1" "is_digit s2"
      "number_of [s1, s2] = sec"
    using two_written [OF sec(2)] by blast
  have written: "format_civil (mi, d, ms)
        = [y1, y2, y3, y4] @ ''-'' @ [m1, m2] @ ''-'' @ [d1, d2] @ ''T''
           @ [h1, h2] @ '':'' @ [n1, n2] @ '':'' @ [s1, s2]"
    using assms(2) yw(1) mw(1) dw(1) hw(1) nw(1) sw(1)
    unfolding y_def m_def h_def n_def sec_def by (rule format_written)
  have day: "d \<le> daysInMonth (int y * 12 + int m - 1)" unfolding index by (rule d(2))
  have read: "parseISO other ([y1, y2, y3, y4] @ ''-'' @ [m1, m2] @ ''-'' @ [d1, d2] @ ''T''
           @ [h1, h2] @ '':'' @ [n1, n2] @ '':'' @ [s1, s2])
         = Some (int y * 12 + int m - 1, d, int h * 3600000 + int n * 60000 + int sec * 1000)"
    using yw(2-5) mw(2,3) dw(2,3) hw(2,3) nw(2,3) sw(2,3) yw(6) mw(4) dw(4) hw(4) nw(4) sw(4)
      m(1,2) d(1) day h(1) n(1) sec(1)
    by (rule parse_written)
  have time: "int h * 3600000 + int n * 60000 + int sec * 1000 = ms - ms mod 1000"
    unfolding h(3) n(3) sec(3) by (rule time_of_day)
  show ?thesis unfolding written read index time ..
qed

section \<open>The dates of the returned occurrences\<close>

lemma delivery_date_make_occurrence: "delivery_date (make_occurrence ord written) = Some written"
  by (simp add: make_occurrence_def order.defs)

lemma getFullYear_mono: "mi \<le> mi' \<Longrightarrow> getFullYear mi \<le> getFullYear mi'"
  by (simp add: getFullYear_def zdiv_mono1)

lemma pushed_read_back:
  assumes "wellformed c" and "millisecond c = millisecond a" and "a < c" and "c \<le> hh"
    and "1 \<le> getFullYear (fst a)" and "getFullYear (fst hh) \<le> 9999"
  shows "\<exists>c'. parseISO other (format_civil c) = Some c' \<and> a < c' \<and> c' \<le> hh"
proof -
  obtain mi d ms where c: "c = (mi, d, ms)" by (cases c)
  obtain mi_a d_a ms_a where a: "a = (mi_a, d_a, ms_a)" by (cases a)
  obtain mi_h d_h ms_h where hh: "hh = (mi_h, d_h, ms_h)" by (cases hh)
  from assms(3,4) a c hh have "mi_a \<le> mi" and "mi \<le> mi_h" by auto
  then have "getFullYear mi_a \<le> getFullYear mi" and "getFullYear mi \<le> getFullYear mi_h"
    by (simp_all add: getFullYear_mono)
  with assms(5,6) a hh have year: "1 \<le> getFullYear mi" "getFullYear mi \<le> 9999" by simp_all
  from assms(1) c have "parseISO other (format_civil c) = Some (mi, d, ms - ms mod 1000)"
    using parse_format [OF _ year, of d ms other] by simp
  moreover from assms(2,3) a c have "a < (mi, d, ms - ms mod 1000)"
    by (auto simp: millisecond_def)
  moreover have "(mi, d, ms - ms mod 1000) \<le> c" using c by simp
  then have "(mi, d, ms - ms mod 1000) \<le> hh" using assms(4) by (rule order_trans)
  ultimately show ?thesis by blast
qed

lemma run_pushed:
  assumes "common_era (parse delivery)" and "four_digit_year (addMonths now 6)"
  shows "\<exists>s ds. projection_run parse now ord pattern delivery = Inr s
     \<and> occurrences s = map (\<lambda>c. make_occurrence ord (format_civil c)) ds
     \<and> length ds \<le> maxIterations
     \<and> (\<forall>c\<in>set ds. \<exists>c'. parseISO other (format_civil c) = Some c'
            \<and> date_gt (Some c') (parse delivery) \<and> date_le (Some c') (addMonths now 6))"
proof -
  let ?st = "parse delivery" and ?hor = "addMonths now 6"
  let ?s0 = "\<lparr>occurrences = [], currentDate = ?st, iteration = 0\<rparr>"
  define m where "m = (case ?st of None \<Rightarrow> 0 | Some a \<Rightarrow> millisecond a)"
  have inv: "\<forall>c. currentDate ?s0 = Some c \<longrightarrow> wellformed c \<and> millisecond c = m"
    using assms(1) by (auto simp: common_era_def m_def)
  obtain s ds where run: "occurrence_loop ord (frequency_type pattern)
        (case frequency_value pattern of None \<Rightarrow> 1 | Some v \<Rightarrow> v) ?st ?hor ?s0 = Inr s"
    and occs: "occurrences s = occurrences ?s0 @ map (\<lambda>c. make_occurrence ord (format_civil c)) ds"
    and ds: "\<forall>c\<in>set ds. wellformed c \<and> millisecond c = m
                \<and> date_gt (Some c) ?st \<and> date_le (Some c) ?hor"
    and len: "length ds \<le> maxIterations - iteration ?s0"
    using loop_pushed [OF inv] by blast
  have "\<exists>c'. parseISO other (format_civil c) = Some c'
            \<and> date_gt (Some c') ?st \<and> date_le (Some c') ?hor" if "c \<in> set ds" for c
  proof -
    from ds that have wf: "wellformed c" and ms: "millisecond c = m"
      and gt: "date_gt (Some c) ?st" and le: "date_le (Some c) ?hor" by simp_all
    from gt obtain a where a: "?st = Some a" "a < c"
      by (auto simp: date_gt_def split: option.splits)
    from le obtain hh where hh: "?hor = Some hh" "c \<le> hh"
      by (auto simp: date_le_def split: option.splits)
    from assms(1) a(1) have "1 \<le> getFullYear (fst a)" by (auto simp: common_era_def)
    moreover from assms(2) hh(1) have "getFullYear (fst hh) \<le> 9999"
      by (auto simp: four_digit_year_def)
    moreover from ms a(1) have "millisecond c = millisecond a" by (simp add: m_def)
    ultimately obtain c' where "parseISO other (format_civil c) = Some c'" "a < c'" "c' \<le> hh"
      using pushed_read_back [OF wf _ a(2) hh(2), of other] by blast
    with a(1) hh(1) show ?thesis by (simp add: date_gt_def date_le_def)
  qed
  with run occs len show ?thesis
    unfolding projection_run_def Let_def by (intro exI [of _ s] exI [of _ ds]) simp
qed

text \<open>
  C1, as the code has it: for an order whose recurrence pattern has a frequency type of
  daily, weekly or monthly and a frequency value of at least one, whose anchor (the parsed
  delivery date) is a date of the year 1 or later, projected with a horizon not after the
  year 9999, the projection returns (it raises no error) at most \<open>maxIterations\<close>
  occurrences, and the delivery date of every returned occurrence, read back by
  \<^verbatim>\<open>parseISO\<close>, is a date strictly after the anchor and at or before the horizon; so the
  anchor is not among the returned dates.
\<close>

theorem projection_within_bounds:
  assumes "recurrence_pattern ord = Some pattern"
    and "frequency_type pattern = Some ''daily'' \<or> frequency_type pattern = Some ''weekly''
         \<or> frequency_type pattern = Some ''monthly''"
    and "frequency_value pattern = Some v" and "1 \<le> v"
    and "delivery_date ord = Some delivery"
    and "common_era (parse delivery)" and "four_digit_year (addMonths now 6)"
  shows "\<exists>occs. generateRecurringOccurrences parse now ord = Inr occs
     \<and> length occs \<le> maxIterations
     \<and> (\<forall>occ\<in>set occs. \<exists>written c. delivery_date occ = Some written
            \<and> parseISO other written = Some c
            \<and> date_gt (Some c) (parse delivery) \<and> date_le (Some c) (addMonths now 6)
            \<and> Some c \<noteq> parse delivery)"
proof (rule guard_cases [of parse now ord])
  assume "generateRecurringOccurrences parse now ord = Inr []"
  then show ?thesis by (intro exI [of _ "[]"]) simp
next
  fix p d
  assume p: "recurrence_pattern ord = Some p" and d: "delivery_date ord = Some d"
    and g: "generateRecurringOccurrences parse now ord =
         (case projection_run parse now ord p d of
            Inl e \<Rightarrow> Inl e | Inr s \<Rightarrow> Inr (occurrences s))"
  from d assms(5) have d': "d = delivery" by simp
  obtain s ds where run: "projection_run parse now ord p delivery = Inr s"
    and occs: "occurrences s = map (\<lambda>c. make_occurrence ord (format_civil c)) ds"
    and len: "length ds \<le> maxIterations"
    and ds: "\<forall>c\<in>set ds. \<exists>c'. parseISO other (format_civil c) = Some c'
            \<and> date_gt (Some c') (parse delivery) \<and> date_le (Some c') (addMonths now 6)"
    using run_pushed [of parse delivery now ord p other] assms(6,7) by blast
  have "\<exists>written c. delivery_date occ = Some written \<and> parseISO other written = Some c
            \<and> date_gt (Some c) (parse delivery) \<and> date_le (Some c) (addMonths now 6)
            \<and> Some c \<noteq> parse delivery" if "occ \<in> set (occurrences s)" for occ
  proof -
    from that occs obtain c where c: "c \<in> set ds" "occ = make_occurrence ord (format_civil c)"
      by auto
    with ds obtain c' where "parseISO other (format_civil c) = Some c'"
      "date_gt (Some c') (parse delivery)" "date_le (Some c') (addMonths now 6)" by blast
    moreover from this(2) have "Some c' \<noteq> parse delivery" by (rule date_gt_neq)
    ultimately show ?thesis using c(2)
      by (intro exI [of _ "format_civil c"] exI [of _ c'])
         (simp add: delivery_date_make_occurrence)
  qed
  with g d' run occs len show ?thesis by (intro exI [of _ "occurrences s"]) simp
qed

theorem projection_within_bounds_witness:
  "\<exists>occs. generateRecurringOccurrences (parseISO no_other_shape) end_of_july_2024 weekly_order
             = Inr occs
     \<and> length occs \<le> 200
     \<and> (\<forall>occ\<in>set occs. \<exists>written c. delivery_date occ = Some written
            \<and> parseISO no_other_shape written = Some c
            \<and> date_gt (Some c) (Some (24300, 1, 0)) \<and> date_le (Some c) (Some (24300, 31, 0))
            \<and> c \<noteq> (24300, 1, 0))"
proof -
  have "common_era (Some (24300, 1, 0))"
    by (simp add: common_era_def wellformed_def january_2025 getFullYear_def)
  moreover have "four_digit_year (Some (24300, 31, 0))"
    by (simp add: four_digit_year_def getFullYear_def)
  ultimately show ?thesis
    using projection_within_bounds [of weekly_order weekly_pattern 1 "''2025-01-01''"
        "parseISO no_other_shape" end_of_july_2024 no_other_shape]
    by (simp add: weekly_order_def weekly_pattern_def parse_jan1 july_horizon maxIterations_def)
qed

lemma parse_ancient: "parseISO expanded_year ''-003000-01-01'' = Some (- 36000, 1, 0)"
  by (simp add: parseISO_def plain_date_def expanded_year_def)

lemma february_3001_bc: "addMonths (Some (- 36000, 1, 0)) 1 = Some (- 35999, 1, 0)"
proof -
  have "daysInMonth (- 35999) = 28"
    by (simp add: daysInMonth_def getMonth_def getFullYear_def isLeapYear_def)
  then show ?thesis
    by (simp add: addMonths_def timeClip_def minDate_def maxDate_def)
qed

lemma format_february_3001:
  "format_civil (- 35999, 1, 0) = ''3001-02-01T00:00:00''"
proof -
  have "addLeadingZeros 3001 4 = ''3001''"
    by (simp add: addLeadingZeros_def digits.simps)
  moreover have "addLeadingZeros (Suc (Suc 0)) 2 = ''02''"
    by (simp add: addLeadingZeros_def digits.simps [of "Suc (Suc 0)"])
  ultimately
  show ?thesis
    by (simp add: format_civil_def Let_def getFullYear_def getMonth_def padded padded_one)
qed

lemma read_february_3001:
  "parseISO other ''3001-02-01T00:00:00'' = Some (36013, 1, 0)"
proof -
  have "daysInMonth 36013 = 28"
    by (simp add: daysInMonth_def getMonth_def getFullYear_def isLeapYear_def)
  then show ?thesis
    using parse_written [of "CHR ''3''" "CHR ''0''" "CHR ''0''" "CHR ''1''" "CHR ''0''" "CHR ''2''"
        "CHR ''0''" "CHR ''1''" "CHR ''0''" "CHR ''0''" "CHR ''0''" "CHR ''0''" "CHR ''0''" "CHR ''0''"
        3001 2 1 0 0 0 other]
    by (simp add: is_digit_def number_of_def digit_value_def)
qed

text \<open>
  C1, as stated, fails for an anchor before the year 1: \<^verbatim>\<open>format\<close> writes the year of the
  era. The monthly order anchored on 1 January -3000, projected at the clock reading
  31 July 2024, has as its first occurrence the delivery date \<^verbatim>\<open>3001-02-01T00:00:00\<close>,
  which reads back as 1 February 3001, after the horizon 31 January 2025.
\<close>

theorem ancient_anchor_after_horizon:
  "map_sum id (map delivery_date \<circ> take 1)
     (generateRecurringOccurrences (parseISO expanded_year) end_of_july_2024 ancient_order)
   = Inr [Some ''3001-02-01T00:00:00'']
   \<and> parseISO expanded_year ''3001-02-01T00:00:00'' = Some (36013, 1, 0)
   \<and> addMonths end_of_july_2024 6 = Some (24300, 31, 0)
   \<and> \<not> date_le (Some (36013, 1, 0)) (Some (24300, 31, 0))"
proof -
  let ?st = "Some (- 36000, 1, 0)" and ?hor = "Some (24300, 31, 0)"
  let ?loop = "occurrence_loop ancient_order (Some ''monthly'') 1 ?st ?hor"
  let ?o = "make_occurrence ancient_order ''3001-02-01T00:00:00''"
  let ?s0 = "\<lparr>occurrences = [], currentDate = ?st, iteration = 0\<rparr>"
  let ?s1 = "\<lparr>occurrences = [], currentDate = Some (- 35999, 1, 0), iteration = 0 + 1\<rparr>"
  let ?s2 = "\<lparr>occurrences = [?o], currentDate = addMonths (Some (- 35999, 1, 0)) 1,
              iteration = 0 + 1 + 1\<rparr>"
  have "?loop ?s0 = ?loop ?s1"
    using loop_step [of ?s0 ?hor ?st ancient_order "[]" "Some ''monthly''" 1 "Some (- 35999, 1, 0)"]
    by (simp add: date_le_def date_gt_def maxIterations_def next_occurrence_def
          february_3001_bc [unfolded One_nat_def])
  also have "\<dots> = ?loop ?s2"
    using loop_step [of ?s1 ?hor ?st ancient_order "[?o]" "Some ''monthly''" 1
        "addMonths (Some (- 35999, 1, 0)) 1"]
    by (simp add: date_le_def date_gt_def maxIterations_def next_occurrence_def
          push_occurrence_def format_date_def format_february_3001 [unfolded One_nat_def])
  finally have first: "?loop ?s0 = ?loop ?s2" .
  obtain s ds where s: "?loop ?s2 = Inr s"
    and occs: "occurrences s = occurrences ?s2
          @ map (\<lambda>c. make_occurrence ancient_order (format_civil c)) ds"
    using loop_bounded [of ancient_order "Some ''monthly''" 1 ?st ?hor ?s2] by blast
  have run: "projection_run (parseISO expanded_year) end_of_july_2024 ancient_order
        monthly_pattern ''-003000-01-01'' = Inr s"
    using first s
    by (simp add: projection_run_def Let_def monthly_pattern_def parse_ancient july_horizon)
  have "generateRecurringOccurrences (parseISO expanded_year) end_of_july_2024 ancient_order =
         (case projection_run (parseISO expanded_year) end_of_july_2024 ancient_order
                 monthly_pattern ''-003000-01-01'' of
            Inl e \<Rightarrow> Inl e
          | Inr s \<Rightarrow> Inr (occurrences s))"
    by (rule guard_passes) (simp_all add: ancient_order_def weekly_order_def)
  with run occs have "map_sum id (map delivery_date \<circ> take 1)
     (generateRecurringOccurrences (parseISO expanded_year) end_of_july_2024 ancient_order)
   = Inr [Some ''3001-02-01T00:00:00'']"
    by (simp add: delivery_date_make_occurrence)
  then show ?thesis
    by (simp add: read_february_3001 july_horizon date_le_def)
qed

section \<open>The projection and the clock\<close>

lemma date_le_trans: "date_le a b \<Longrightarrow> date_le b c \<Longrightarrow> date_le a c"
  by (auto simp: date_le_def split: option.splits)

lemma loop_later_horizon:
  "date_le hor hor' \<Longrightarrow>
   \<exists>s1 s2 rest. occurrence_loop ord ftype fvalue st hor s = Inr s1
     \<and> occurrence_loop ord ftype fvalue st hor' s = Inr s2
     \<and> occurrences s2 = occurrences s1 @ rest"
proof (induction ord ftype fvalue st hor s rule: occurrence_loop.induct)
  case (1 ord ftype fvalue st hor s)
  show ?case
  proof (cases "date_le (currentDate s) hor \<and> iteration s < maxIterations")
    case False
    then have "occurrence_loop ord ftype fvalue st hor s = Inr s" by (rule loop_exit)
    moreover obtain s2 ds where "occurrence_loop ord ftype fvalue st hor' s = Inr s2"
      and "occurrences s2 = occurrences s @ map (\<lambda>c. make_occurrence ord (format_civil c)) ds"
      using loop_bounded [of ord ftype fvalue st hor' s] by blast
    ultimately show ?thesis by blast
  next
    case True
    with "1.prems" have True': "date_le (currentDate s) hor' \<and> iteration s < maxIterations"
      by (auto intro: date_le_trans)
    obtain new where
      push: "(if date_gt (currentDate s) st
              then push_occurrence ord (currentDate s) (occurrences s)
              else Inr (occurrences s))
             = Inr (occurrences s @ map (\<lambda>c. make_occurrence ord (format_civil c)) new)"
      using push_defined [of s hor st ord] True by blast
    let ?occs = "occurrences s @ map (\<lambda>c. make_occurrence ord (format_civil c)) new"
    show ?thesis
    proof (cases "next_occurrence ftype fvalue (currentDate s)")
      case None
      have "occurrence_loop ord ftype fvalue st hor s = Inr (s\<lparr>occurrences := ?occs\<rparr>)"
        using True push None by (rule loop_break)
      moreover have "occurrence_loop ord ftype fvalue st hor' s = Inr (s\<lparr>occurrences := ?occs\<rparr>)"
        using True' push None by (rule loop_break)
      ultimately show ?thesis by simp
    next
      case (Some date)
      let ?t = "\<lparr>occurrences = ?occs, currentDate = date, iteration = iteration s + 1\<rparr>"
      have "occurrence_loop ord ftype fvalue st hor s = occurrence_loop ord ftype fvalue st hor ?t"
        using True push Some by (rule loop_step)
      moreover have "occurrence_loop ord ftype fvalue st hor' s
                     = occurrence_loop ord ftype fvalue st hor' ?t"
        using True' push Some by (rule loop_step)
      ultimately show ?thesis using "1.IH" [OF True push Some "1.prems"] by simp
    qed
  qed
qed

text \<open>
  C7, as the code has it: the projection reads the clock, and only to compute the horizon
  \<^verbatim>\<open>addMonths(new Date(), 6)\<close>. Its result is a function of the order and that horizon:
  two calls on the same order whose horizons agree return the same sequence, and when the
  horizon of one call is not after that of the other, the first result is a prefix of the
  second.
\<close>

theorem same_horizon_same_projection:
  "(addMonths now 6 = addMonths now' 6 \<longrightarrow>
      generateRecurringOccurrences parse now ord = generateRecurringOccurrences parse now' ord)
   \<and> (date_le (addMonths now 6) (addMonths now' 6) \<longrightarrow>
        (\<exists>occs rest. generateRecurringOccurrences parse now ord = Inr occs
           \<and> generateRecurringOccurrences parse now' ord = Inr (occs @ rest)))"
proof (intro conjI impI)
  assume same: "addMonths now 6 = addMonths now' 6"
  have "projection_run parse now ord pattern delivery
        = projection_run parse now' ord pattern delivery" for pattern delivery
    using same by (simp add: projection_run_def)
  then show "generateRecurringOccurrences parse now ord
             = generateRecurringOccurrences parse now' ord"
    by (auto simp: generateRecurringOccurrences_def split: option.splits)
next
  assume later: "date_le (addMonths now 6) (addMonths now' 6)"
  show "\<exists>occs rest. generateRecurringOccurrences parse now ord = Inr occs
           \<and> generateRecurringOccurrences parse now' ord = Inr (occs @ rest)"
  proof (cases "\<not> is_recurring ord \<or> recurrence_pattern ord = None \<or> delivery_date ord = None
     \<or> delivery_date ord = Some [] \<or> status ord = ''cancelled''")
    case True
    then have "generateRecurringOccurrences parse now ord = Inr []"
      and "generateRecurringOccurrences parse now' ord = Inr []"
      by (rule guard_fails)+
    then show ?thesis by simp
  next
    case False
    then obtain pattern delivery where g: "is_recurring ord" "recurrence_pattern ord = Some pattern"
      "delivery_date ord = Some delivery" "delivery \<noteq> []" "status ord \<noteq> ''cancelled''"
      by auto
    obtain s1 s2 rest where "projection_run parse now ord pattern delivery = Inr s1"
      and "projection_run parse now' ord pattern delivery = Inr s2"
      and "occurrences s2 = occurrences s1 @ rest"
      unfolding projection_run_def Let_def
      using loop_later_horizon [OF later] by blast
    then show ?thesis
      using guard_passes [OF g, of parse now] guard_passes [OF g, of parse now'] by simp
  qed
qed

lemma aug30: "addMonths august_30_2024 6 = Some (24301, 28, 0)"
  by (simp add: addMonths_def august_30_2024_def daysInMonth_def getMonth_def getFullYear_def
        isLeapYear_def timeClip_def minDate_def maxDate_def)

lemma aug31: "addMonths august_31_2024 6 = Some (24301, 28, 0)"
  by (simp add: addMonths_def august_31_2024_def daysInMonth_def getMonth_def getFullYear_def
        isLeapYear_def timeClip_def minDate_def maxDate_def)

lemma weekly_january_three:
  assumes "(24300, 22, 0) \<le> hh"
  shows "occurrence_loop weekly_order (Some ''weekly'') 1 (Some (24300, 1, 0)) (Some hh)
           \<lparr>occurrences = [], currentDate = Some (24300, 1, 0), iteration = 0\<rparr>
         = occurrence_loop weekly_order (Some ''weekly'') 1 (Some (24300, 1, 0)) (Some hh)
             \<lparr>occurrences = map (make_occurrence weekly_order)
                 [''2025-01-08T00:00:00'', ''2025-01-15T00:00:00'', ''2025-01-22T00:00:00''],
              currentDate = Some (24300, 29, 0), iteration = 4\<rparr>"
  (is "?loop \<lparr>occurrences = [], currentDate = Some (24300, 1, 0), iteration = 0\<rparr> = _")
proof -
  note eval = date_gt_def maxIterations_def format_january
  let ?o1 = "make_occurrence weekly_order ''2025-01-08T00:00:00''"
  let ?o2 = "make_occurrence weekly_order ''2025-01-15T00:00:00''"
  let ?o3 = "make_occurrence weekly_order ''2025-01-22T00:00:00''"
  have "(24300, 1, 0) \<le> ((24300, 22, 0) :: civil)" by simp
  then have "(24300, 1, 0) \<le> hh" using assms by (rule order_trans)
  moreover have "(24300, 8, 0) \<le> ((24300, 22, 0) :: civil)" by simp
  then have "(24300, 8, 0) \<le> hh" using assms by (rule order_trans)
  moreover have "(24300, 15, 0) \<le> ((24300, 22, 0) :: civil)" by simp
  then have "(24300, 15, 0) \<le> hh" using assms by (rule order_trans)
  ultimately have le: "date_le (Some (24300, 1, 0)) (Some hh)"
    "date_le (Some (24300, 8, 0)) (Some hh)" "date_le (Some (24300, 15, 0)) (Some hh)"
    "date_le (Some (24300, 22, 0)) (Some hh)"
    using assms unfolding date_le_def by simp_all
  have "?loop \<lparr>occurrences = [], currentDate = Some (24300, 1, 0), iteration = 0\<rparr>
        = ?loop \<lparr>occurrences = [], currentDate = Some (24300, 8, 0), iteration = 1\<rparr>"
    by (rule weekly_pass [where c = "(24300, 1, 0)"])
       (simp_all add: eval le [unfolded One_nat_def] week_1 [unfolded One_nat_def])
  also have "\<dots> = ?loop \<lparr>occurrences = [?o1], currentDate = Some (24300, 15, 0), iteration = 2\<rparr>"
    by (rule weekly_pass [where c = "(24300, 8, 0)"])
       (simp_all add: eval le week_2)
  also have "\<dots> = ?loop \<lparr>occurrences = [?o1, ?o2], currentDate = Some (24300, 22, 0), iteration = 3\<rparr>"
    by (rule weekly_pass [where c = "(24300, 15, 0)"])
       (simp_all add: eval le week_3)
  also have "\<dots> = ?loop \<lparr>occurrences = [?o1, ?o2, ?o3], currentDate = Some (24300, 29, 0),
                       iteration = 4\<rparr>"
    by (rule weekly_pass [where c = "(24300, 22, 0)"])
       (simp_all add: eval le week_4)
  finally show ?thesis by simp
qed

lemma horizon_july_28: "addMonths july_28_last_millisecond 6 = Some (24300, 28, 86399999)"
  by (simp add: addMonths_def july_28_last_millisecond_def january_2025
        timeClip_def minDate_def maxDate_def)

lemma horizon_july_29: "addMonths july_29_2024 6 = Some (24300, 29, 0)"
  by (simp add: addMonths_def july_29_2024_def january_2025
        timeClip_def minDate_def maxDate_def)

theorem same_horizon_same_projection_witness:
  "august_30_2024 \<noteq> august_31_2024
   \<and> addMonths august_30_2024 6 = addMonths august_31_2024 6
   \<and> generateRecurringOccurrences (parseISO no_other_shape) august_30_2024 weekly_order
       = generateRecurringOccurrences (parseISO no_other_shape) august_31_2024 weekly_order
   \<and> date_le (addMonths july_28_last_millisecond 6) (addMonths july_29_2024 6)
   \<and> (\<exists>occs rest.
         generateRecurringOccurrences (parseISO no_other_shape) july_28_last_millisecond weekly_order
           = Inr occs
         \<and> generateRecurringOccurrences (parseISO no_other_shape) july_29_2024 weekly_order
           = Inr (occs @ rest))"
proof -
  have "date_le (addMonths july_28_last_millisecond 6) (addMonths july_29_2024 6)"
    by (simp add: horizon_july_28 horizon_july_29 date_le_def)
  moreover have "august_30_2024 \<noteq> august_31_2024"
    by (simp add: august_30_2024_def august_31_2024_def)
  ultimately show ?thesis
    using same_horizon_same_projection [of august_30_2024 august_31_2024 "parseISO no_other_shape"
        weekly_order]
      same_horizon_same_projection [of july_28_last_millisecond july_29_2024
        "parseISO no_other_shape" weekly_order]
    by (simp add: aug30 aug31)
qed

text \<open>
  C7, as stated, fails: the result does not depend on the parameters passed in alone. The
  weekly order of 1 January 2025, projected at two clock readings one millisecond apart,
  gives three occurrences at the first and four at the second.
\<close>

theorem clock_changes_projection:
  "map_sum id (map delivery_date)
     (generateRecurringOccurrences (parseISO no_other_shape) july_28_last_millisecond weekly_order)
     = Inr [Some ''2025-01-08T00:00:00'', Some ''2025-01-15T00:00:00'',
            Some ''2025-01-22T00:00:00'']
   \<and> map_sum id (map delivery_date)
     (generateRecurringOccurrences (parseISO no_other_shape) july_29_2024 weekly_order)
     = Inr [Some ''2025-01-08T00:00:00'', Some ''2025-01-15T00:00:00'',
            Some ''2025-01-22T00:00:00'', Some ''2025-01-29T00:00:00'']
   \<and> generateRecurringOccurrences (parseISO no_other_shape) july_28_last_millisecond weekly_order
     \<noteq> generateRecurringOccurrences (parseISO no_other_shape) july_29_2024 weekly_order"
proof -
  let ?st = "Some (24300, 1, 0)"
  let ?s0 = "\<lparr>occurrences = [], currentDate = ?st, iteration = 0\<rparr>"
  let ?three = "map (make_occurrence weekly_order)
             [''2025-01-08T00:00:00'', ''2025-01-15T00:00:00'', ''2025-01-22T00:00:00'']"
  let ?four = "map (make_occurrence weekly_order)
             [''2025-01-08T00:00:00'', ''2025-01-15T00:00:00'', ''2025-01-22T00:00:00'',
              ''2025-01-29T00:00:00'']"
  let ?s4 = "\<lparr>occurrences = ?three, currentDate = Some (24300, 29, 0), iteration = 4\<rparr>"
  let ?s5 = "\<lparr>occurrences = ?four, currentDate = Some (24301, 5, 0), iteration = 5\<rparr>"
  have early: "occurrence_loop weekly_order (Some ''weekly'') 1 ?st (Some (24300, 28, 86399999)) ?s0
               = Inr ?s4"
  proof -
    have "occurrence_loop weekly_order (Some ''weekly'') 1 ?st (Some (24300, 28, 86399999)) ?s0
          = occurrence_loop weekly_order (Some ''weekly'') 1 ?st (Some (24300, 28, 86399999)) ?s4"
      by (rule weekly_january_three) simp
    also have "\<dots> = Inr ?s4" by (rule loop_exit) (simp add: date_le_def)
    finally show ?thesis .
  qed
  have late: "occurrence_loop weekly_order (Some ''weekly'') 1 ?st (Some (24300, 29, 0)) ?s0
               = Inr ?s5"
  proof -
    have "occurrence_loop weekly_order (Some ''weekly'') 1 ?st (Some (24300, 29, 0)) ?s0
          = occurrence_loop weekly_order (Some ''weekly'') 1 ?st (Some (24300, 29, 0)) ?s4"
      by (rule weekly_january_three) simp
    also have "\<dots> = occurrence_loop weekly_order (Some ''weekly'') 1 ?st (Some (24300, 29, 0)) ?s5"
      by (rule weekly_pass [where c = "(24300, 29, 0)"])
         (simp_all add: date_le_def date_gt_def maxIterations_def format_january week_5)
    also have "\<dots> = Inr ?s5" by (rule loop_exit) (simp add: date_le_def)
    finally show ?thesis .
  qed
  have guard: "generateRecurringOccurrences (parseISO no_other_shape) now weekly_order =
         (case projection_run (parseISO no_other_shape) now weekly_order weekly_pattern
                 ''2025-01-01'' of
            Inl e \<Rightarrow> Inl e
          | Inr s \<Rightarrow> Inr (occurrences s))" for now
    by (rule guard_passes) (simp_all add: weekly_order_def)
  have "generateRecurringOccurrences (parseISO no_other_shape) july_28_last_millisecond weekly_order
        = Inr ?three"
    using early
    by (simp add: guard projection_run_def Let_def weekly_pattern_def parse_jan1 horizon_july_28)
  moreover have "generateRecurringOccurrences (parseISO no_other_shape) july_29_2024 weekly_order
        = Inr ?four"
    using late
    by (simp add: guard projection_run_def Let_def weekly_pattern_def parse_jan1 horizon_july_29)
  ultimately show ?thesis by (simp add: delivery_date_make_occurrence)
qed

section \<open>Properties of the modification workflow\<close>

lemma computeTotal_valid:
  assumes "list_all valid_item its"
  shows "computeTotal its =
         Inr \<lparr>subtotal = sum_list (map line_total its),
              tax = round_half_up (sum_list (map line_total its) * TAX_RATE),
              total = sum_list (map line_total its)
                      + round_half_up (sum_list (map line_total its) * TAX_RATE)\<rparr>"
  using assms by (simp add: computeTotal_def Let_def)

lemma shirt_and_pants_total:
  "computeTotal shirt_and_pants = Inr \<lparr>subtotal = 95, tax = 19 / 2, total = 209 / 2\<rparr>"
proof -
  have "round_half_up (19 / 2) = 19 / 2"
    by (simp add: round_half_up_def floor_eq_iff)
  moreover have "list_all valid_item shirt_and_pants"
    by (simp add: shirt_and_pants_def valid_item_def)
  moreover have "sum_list (map line_total shirt_and_pants) = 95"
    by (simp add: shirt_and_pants_def line_total_def)
  ultimately show ?thesis by (simp add: computeTotal_valid TAX_RATE_def)
qed

text \<open>
  C2: approving requires a pending modification, and fails with
  \<^verbatim>\<open>NoPendingModificationError\<close> otherwise. With proposed items present (and valid) the
  total is recomputed from them, whatever total the proposal or the order carried; the
  items are replaced by the proposed ones, the modification status becomes approved and
  the pending modification is cleared. For the order of two shirts at 30 (total 60) with
  the proposal of a shirt at 60 and pants at 35, approval gives a total of 95 and the
  proposed items, and the price with tax of these items is 104.50.
\<close>

theorem approve_recomputes_total:
  "(modification_status ord = Some Pending \<and> pending_modifications ord = Some pm
      \<and> proposed_items pm = Some its \<and> list_all valid_item its
    \<longrightarrow> approve ord =
          Inr (ord\<lparr>items := its, total_amount := sum_list (map line_total its),
                   modification_status := Some Approved, pending_modifications := None\<rparr>))
   \<and> (modification_status ord \<noteq> Some Pending \<longrightarrow> approve ord = Inl NoPendingModificationError)
   \<and> total_amount shirt_order = 60
   \<and> approve stale_proposal =
         Inr (shirt_order\<lparr>items := shirt_and_pants, total_amount := 95,
                modification_status := Some Approved, pending_modifications := None\<rparr>)
   \<and> map_sum (\<lambda>e. e) total (computeTotal shirt_and_pants) = Inr (10450 / 100)"
proof -
  have general: "approve ord =
          Inr (ord\<lparr>items := its, total_amount := sum_list (map line_total its),
                   modification_status := Some Approved, pending_modifications := None\<rparr>)"
    if "modification_status ord = Some Pending" and "pending_modifications ord = Some pm"
      and "proposed_items pm = Some its" and "list_all valid_item its"
    for ord pm its
    using that by (simp add: approve_def computeTotal_valid)
  have "approve stale_proposal =
         Inr (stale_proposal\<lparr>items := shirt_and_pants,
                total_amount := sum_list (map line_total shirt_and_pants),
                modification_status := Some Approved, pending_modifications := None\<rparr>)"
    by (rule general [where pm = "\<lparr>proposed_items = Some shirt_and_pants, proposed_total = Some 60\<rparr>"])
       (simp_all add: stale_proposal_def shirt_and_pants_def valid_item_def)
  moreover have "sum_list (map line_total shirt_and_pants) = 95"
    by (simp add: shirt_and_pants_def line_total_def)
  ultimately have concrete: "approve stale_proposal =
         Inr (shirt_order\<lparr>items := shirt_and_pants, total_amount := 95,
                modification_status := Some Approved, pending_modifications := None\<rparr>)"
    by (simp add: stale_proposal_def)
  have "approve ord = Inl NoPendingModificationError" if "modification_status ord \<noteq> Some Pending"
    using that by (simp add: approve_def)
  with general concrete show ?thesis
    by (simp add: shirt_and_pants_total shirt_order_def)
qed

theorem approve_recomputes_total_witness:
  "approve stale_proposal =
     Inr (stale_proposal\<lparr>items := shirt_and_pants, total_amount := 95,
            modification_status := Some Approved, pending_modifications := None\<rparr>)
   \<and> approve shirt_order = Inl NoPendingModificationError"
proof -
  have "sum_list (map line_total shirt_and_pants) = 95"
    by (simp add: shirt_and_pants_def line_total_def)
  moreover have "list_all valid_item shirt_and_pants"
    by (simp add: shirt_and_pants_def valid_item_def)
  ultimately show ?thesis
    using approve_recomputes_total [of stale_proposal
        "\<lparr>proposed_items = Some shirt_and_pants, proposed_total = Some 60\<rparr>" shirt_and_pants]
      approve_recomputes_total [of shirt_order]
    by (simp add: stale_proposal_def shirt_order_def)
qed

text \<open>
  C9: rejecting requires a pending modification, and fails with
  \<^verbatim>\<open>NoPendingModificationError\<close> otherwise. It returns the order with the modification
  status rejected and the pending modification cleared, and nothing else changed: items
  and total are as they were. A proposal followed by its rejection gives back the order
  as it was before the proposal, up to these two fields.
\<close>

theorem reject_leaves_order:
  "(modification_status ord = Some Pending \<longrightarrow>
      (\<exists>ord'. reject ord = Inr ord' \<and> items ord' = items ord
         \<and> total_amount ord' = total_amount ord
         \<and> modification_status ord' = Some Rejected \<and> pending_modifications ord' = None
         \<and> ord' = ord\<lparr>modification_status := Some Rejected, pending_modifications := None\<rparr>))
   \<and> (modification_status ord \<noteq> Some Pending \<longrightarrow> reject ord = Inl NoPendingModificationError)
   \<and> (\<forall>proposed. propose ord ch = Inr proposed \<longrightarrow>
        reject proposed
          = Inr (ord\<lparr>modification_status := Some Rejected, pending_modifications := None\<rparr>))"
  by (auto simp: reject_def propose_def split: if_splits sum.splits)

theorem reject_leaves_order_witness:
  "propose shirt_order \<lparr>changed_items = Some shirt_and_pants\<rparr>
     = Inr (shirt_order\<lparr>modification_status := Some Pending,
              pending_modifications :=
                Some \<lparr>proposed_items = Some shirt_and_pants, proposed_total = Some 95\<rparr>\<rparr>)
   \<and> reject (shirt_order\<lparr>modification_status := Some Pending,
              pending_modifications :=
                Some \<lparr>proposed_items = Some shirt_and_pants, proposed_total = Some 95\<rparr>\<rparr>)
     = Inr (shirt_order\<lparr>modification_status := Some Rejected\<rparr>)
   \<and> reject shirt_order = Inl NoPendingModificationError"
proof -
  have p: "propose shirt_order \<lparr>changed_items = Some shirt_and_pants\<rparr>
     = Inr (shirt_order\<lparr>modification_status := Some Pending,
              pending_modifications :=
                Some \<lparr>proposed_items = Some shirt_and_pants, proposed_total = Some 95\<rparr>\<rparr>)"
    by (simp add: propose_def shirt_and_pants_total) (simp add: shirt_order_def shirt_and_pants_def)
  show ?thesis
    using reject_leaves_order [of shirt_order "\<lparr>changed_items = Some shirt_and_pants\<rparr>"] p
    by (simp add: shirt_order_def)
qed

end
